theory Spec2Isabelle
  imports Complex_Main "HOL-Library.Product_Lexorder"
begin

section \<open>Meshes\<close>

text \<open>
  A mesh is what \<^verbatim>\<open>trimesh.Trimesh\<close> exposes to \<^verbatim>\<open>bbkm/modifications.py\<close>: an
  index-addressed array of 3D points and an array of index triples. Coordinates are
  modelled as real numbers, so every numpy operation below is the exact one; rounding
  errors of binary floating point are outside the model.
\<close>

type_synonym vertex = "real \<times> real \<times> real"
type_synonym face = "nat \<times> nat \<times> nat"

record mesh =
  vertices :: "vertex list"
  faces :: "face list"

text \<open>The exceptions the modelled code can raise.\<close>

datatype error =
    ValueError    \<comment> \<open>\<^verbatim>\<open>.min()\<close> of a zero-size array\<close>
  | TypeError     \<comment> \<open>subscript of \<^verbatim>\<open>mesh.bounds\<close> when it is \<^verbatim>\<open>None\<close>\<close>
  | IndexError    \<comment> \<open>a face index beyond the vertex array\<close>
  | QhullError    \<comment> \<open>\<^verbatim>\<open>scipy.spatial.Delaunay\<close> on a degenerate point set\<close>

definition vx :: "vertex \<Rightarrow> real" where "vx v = fst v"
definition vy :: "vertex \<Rightarrow> real" where "vy v = fst (snd v)"
definition vz :: "vertex \<Rightarrow> real" where "vz v = snd (snd v)"

definition face_indices :: "face \<Rightarrow> nat list" where
  "face_indices f = (case f of (a, b, c) \<Rightarrow> [a, b, c])"

definition map_face :: "(nat \<Rightarrow> nat) \<Rightarrow> face \<Rightarrow> face" where
  "map_face r f = (case f of (a, b, c) \<Rightarrow> (r a, r b, r c))"

definition face_in_range :: "nat \<Rightarrow> face \<Rightarrow> bool" where
  "face_in_range n f = list_all (\<lambda>i. i < n) (face_indices f)"

definition faces_in_range :: "mesh \<Rightarrow> bool" where
  "faces_in_range m = list_all (face_in_range (length (vertices m))) (faces m)"

section \<open>numpy on exact numbers\<close>

text \<open>\<^verbatim>\<open>a.min()\<close> and \<^verbatim>\<open>a.max()\<close> of a non-empty array (callers guard the empty one).\<close>

fun amin :: "real list \<Rightarrow> real" where
  "amin [] = 0"
| "amin [x] = x"
| "amin (x # y # ys) = min x (amin (y # ys))"

fun amax :: "real list \<Rightarrow> real" where
  "amax [] = 0"
| "amax [x] = x"
| "amax (x # y # ys) = max x (amax (y # ys))"

text \<open>\<^verbatim>\<open>np.arange(start, stop, step)\<close>: \<open>\<lceil>(stop - start) / step\<rceil>\<close> values \<open>start + i * step\<close>.\<close>

definition arange :: "real \<Rightarrow> real \<Rightarrow> real \<Rightarrow> real list" where
  "arange start stop step =
     map (\<lambda>i. start + real i * step) [0..<nat \<lceil>(stop - start) / step\<rceil>]"

text \<open>\<^verbatim>\<open>np.rint\<close>: round to the nearest integer, ties to the even one.\<close>

definition rint :: "real \<Rightarrow> int" where
  "rint x = (let f = \<lfloor>x\<rfloor>; r = x - of_int f in
     if r < 1 / 2 then f else if 1 / 2 < r then f + 1 else if even f then f else f + 1)"

text \<open>\<^verbatim>\<open>np.round(a, decimals=2)\<close> on one coordinate and on one row.\<close>

definition round2 :: "real \<Rightarrow> real" where
  "round2 x = of_int (rint (x * 100)) / 100"

definition round2_row :: "vertex \<Rightarrow> vertex" where
  "round2_row v = (round2 (vx v), round2 (vy v), round2 (vz v))"

text \<open>\<^verbatim>\<open>np.unique(rows, axis=0)\<close>: the distinct rows in lexicographic order.\<close>

definition unique_rows :: "vertex list \<Rightarrow> vertex list" where
  "unique_rows rows = sort (remdups rows)"

section \<open>Mesh repair\<close>

text \<open>
  Keep the first element of every class of a key, in order of first occurrence.
\<close>

fun dedup_by :: "('a \<Rightarrow> 'k) \<Rightarrow> 'a list \<Rightarrow> 'a list" where
  "dedup_by k [] = []"
| "dedup_by k (x # xs) = x # dedup_by k (filter (\<lambda>y. k y \<noteq> k x) xs)"

fun index_where :: "('a \<Rightarrow> bool) \<Rightarrow> 'a list \<Rightarrow> nat" where
  "index_where P [] = 0"
| "index_where P (x # xs) = (if P x then 0 else Suc (index_where P xs))"

text \<open>
  Modelled from the spec: \<^verbatim>\<open>Trimesh.merge_vertices\<close> is code of the trimesh library,
  which is not part of the repository sources. Spec 4.4 step (1): merge vertices within
  tolerance, remapping all face references; spec 3: the dedup tolerance is a rounding of
  each coordinate to 0.01 mm. A vertex is identified by its rounded coordinates, the
  first vertex of every class is kept with its own coordinates, and every face index is
  redirected to the kept vertex of its class.
\<close>

definition vertex_key :: "vertex \<Rightarrow> int \<times> int \<times> int" where
  "vertex_key v = (rint (vx v * 100), rint (vy v * 100), rint (vz v * 100))"

definition merge_vertices :: "mesh \<Rightarrow> mesh" where
  "merge_vertices m =
     (let vs = vertices m;
          kept = dedup_by vertex_key vs;
          remap = (\<lambda>i. index_where (\<lambda>w. vertex_key w = vertex_key (vs ! i)) kept)
      in \<lparr>vertices = kept, faces = map (map_face remap) (faces m)\<rparr>)"

text \<open>
  Modelled from the spec: \<^verbatim>\<open>Trimesh.remove_degenerate_faces\<close> is code of the trimesh
  library. Spec 4.4 step (2): remove faces of zero area or with a repeated vertex index.
  The area test is the exact one: the cross product of two edge vectors vanishes.
\<close>

definition cross :: "vertex \<Rightarrow> vertex \<Rightarrow> vertex" where
  "cross u v = (vy u * vz v - vz u * vy v, vz u * vx v - vx u * vz v, vx u * vy v - vy u * vx v)"

definition vsub :: "vertex \<Rightarrow> vertex \<Rightarrow> vertex" where
  "vsub u v = (vx u - vx v, vy u - vy v, vz u - vz v)"

definition zero_area :: "vertex \<Rightarrow> vertex \<Rightarrow> vertex \<Rightarrow> bool" where
  "zero_area p q r = (cross (vsub q p) (vsub r p) = (0, 0, 0))"

definition degenerate :: "vertex list \<Rightarrow> face \<Rightarrow> bool" where
  "degenerate vs f = (case f of (a, b, c) \<Rightarrow>
     a = b \<or> b = c \<or> a = c \<or> zero_area (vs ! a) (vs ! b) (vs ! c))"

definition remove_degenerate_faces :: "mesh \<Rightarrow> mesh" where
  "remove_degenerate_faces m =
     m\<lparr>faces := filter (\<lambda>f. \<not> degenerate (vertices m) f) (faces m)\<rparr>"

text \<open>
  Modelled from the spec: \<^verbatim>\<open>Trimesh.remove_duplicate_faces\<close> is code of the trimesh
  library. Spec 4.4 step (3): remove duplicate faces, the same vertex set regardless of
  winding, keeping one (the first).
\<close>

definition face_set :: "face \<Rightarrow> nat set" where
  "face_set f = set (face_indices f)"

definition remove_duplicate_faces :: "mesh \<Rightarrow> mesh" where
  "remove_duplicate_faces m = m\<lparr>faces := dedup_by face_set (faces m)\<rparr>"

text \<open>
  Modelled from the spec: \<^verbatim>\<open>Trimesh.remove_unreferenced_vertices\<close> is code of the
  trimesh library. Spec 4.4 step (4): remove vertices unreferenced by any remaining face.
  The kept vertices stay in order, and an index becomes the number of kept vertices
  before it.
\<close>

definition referenced :: "face list \<Rightarrow> nat \<Rightarrow> bool" where
  "referenced fs i = (\<exists>f \<in> set fs. i \<in> face_set f)"

definition remove_unreferenced_vertices :: "mesh \<Rightarrow> mesh" where
  "remove_unreferenced_vertices m =
     (let vs = vertices m; fs = faces m;
          kept = filter (referenced fs) [0..<length vs];
          remap = (\<lambda>j. length (filter (referenced fs) [0..<j]))
      in \<lparr>vertices = map (\<lambda>i. vs ! i) kept, faces = map (map_face remap) fs\<rparr>)"

text \<open>
  The repair sequence of \<^verbatim>\<open>fill_battery_gap\<close> (lines 76-79) and of
  \<^verbatim>\<open>add_magsafe_recess\<close> (lines 200-203). A face index beyond the vertex array makes
  the library raise \<^verbatim>\<open>IndexError\<close>.
\<close>

definition repair_steps :: "mesh \<Rightarrow> mesh" where
  "repair_steps m =
     remove_unreferenced_vertices
       (remove_duplicate_faces (remove_degenerate_faces (merge_vertices m)))"

definition repair :: "mesh \<Rightarrow> error + mesh" where
  "repair m = (if faces_in_range m then Inr (repair_steps m) else Inl IndexError)"

section \<open>Normal fix\<close>

text \<open>
  Modelled from the spec: \<^verbatim>\<open>Trimesh.fix_normals\<close> is code of the trimesh library.
  Spec 4.4 step (5) and the glossary: recompute consistent outward-facing triangle
  winding across connected mesh regions by connectivity propagation. The winding is
  propagated breadth-first over faces that share an edge, starting every region at its
  lowest face index: a face that runs along the shared edge in the same direction as an
  already visited neighbour is reversed. Then, if the signed volume enclosed by the faces
  is negative, every face is reversed. Only the order of the three indices of a face
  ever changes.
\<close>

definition directed_edges :: "face \<Rightarrow> (nat \<times> nat) list" where
  "directed_edges f = (case f of (a, b, c) \<Rightarrow> [(a, b), (b, c), (c, a)])"

definition same_direction :: "face \<Rightarrow> face \<Rightarrow> bool" where
  "same_direction f g = list_ex (\<lambda>e. e \<in> set (directed_edges g)) (directed_edges f)"

definition opposite_direction :: "face \<Rightarrow> face \<Rightarrow> bool" where
  "opposite_direction f g =
     list_ex (\<lambda>e. (snd e, fst e) \<in> set (directed_edges g)) (directed_edges f)"

definition adjacent :: "face \<Rightarrow> face \<Rightarrow> bool" where
  "adjacent f g = (same_direction f g \<or> opposite_direction f g)"

definition flip :: "face \<Rightarrow> face" where
  "flip f = (case f of (a, b, c) \<Rightarrow> (c, b, a))"

definition orient_to :: "face \<Rightarrow> face \<Rightarrow> face" where
  "orient_to f g = (if same_direction f g then flip g else g)"

function fix_winding_bfs :: "face list \<Rightarrow> nat list \<Rightarrow> nat list \<Rightarrow> face list" where
  "fix_winding_bfs fs [] [] = fs"
| "fix_winding_bfs fs [] (u # us) = fix_winding_bfs fs [u] us"
| "fix_winding_bfs fs (q # qs) us =
     (let nb = filter (\<lambda>j. adjacent (fs ! q) (fs ! j)) us;
          fs' = fold (\<lambda>j acc. acc[j := orient_to (acc ! q) (acc ! j)]) nb fs
      in fix_winding_bfs fs' (qs @ nb) (filter (\<lambda>j. \<not> adjacent (fs ! q) (fs ! j)) us))"
  by pat_completeness auto
termination
proof (relation "measure (\<lambda>(fs, qs, us). 2 * length us + length qs)", goal_cases)
  case 1
  show ?case by simp
next
  case (2 fs u us)
  show ?case by simp
next
  case (3 fs q qs us nb fs')
  have "length (filter (\<lambda>j. adjacent (fs ! q) (fs ! j)) us)
        + length (filter (\<lambda>j. \<not> adjacent (fs ! q) (fs ! j)) us) = length us"
    by (rule sum_length_filter_compl)
  with 3 show ?case by simp
qed

definition fix_winding :: "mesh \<Rightarrow> mesh" where
  "fix_winding m = m\<lparr>faces := fix_winding_bfs (faces m) [] [0..<length (faces m)]\<rparr>"

definition dot :: "vertex \<Rightarrow> vertex \<Rightarrow> real" where
  "dot u v = vx u * vx v + vy u * vy v + vz u * vz v"

definition signed_volume :: "vertex list \<Rightarrow> face list \<Rightarrow> real" where
  "signed_volume vs fs =
     sum_list (map (\<lambda>f. case f of (a, b, c) \<Rightarrow> dot (vs ! a) (cross (vs ! b) (vs ! c))) fs) / 6"

definition fix_inversion :: "mesh \<Rightarrow> mesh" where
  "fix_inversion m =
     (if signed_volume (vertices m) (faces m) < 0 then m\<lparr>faces := map flip (faces m)\<rparr> else m)"

definition fix_normals :: "mesh \<Rightarrow> mesh" where
  "fix_normals m = fix_inversion (fix_winding m)"

text \<open>
  The normal of a face as its winding defines it: the normalised cross product of the
  edge vectors from the first corner (the zero vector for a face without area).
\<close>

definition face_normal :: "vertex list \<Rightarrow> face \<Rightarrow> vertex" where
  "face_normal vs f = (case f of (a, b, c) \<Rightarrow>
     (let n = cross (vsub (vs ! b) (vs ! a)) (vsub (vs ! c) (vs ! a));
          l = sqrt (dot n n)
      in if l = 0 then (0, 0, 0) else (vx n / l, vy n / l, vz n / l)))"

definition face_normals :: "mesh \<Rightarrow> vertex list" where
  "face_normals m = map (face_normal (vertices m)) (faces m)"

section \<open>Gap fill: \<^verbatim>\<open>fill_battery_gap\<close>\<close>

text \<open>Lines 17-22: the mask of the vertices taken as the back plane, as indices.\<close>

definition back_vertex_indices :: "vertex list \<Rightarrow> nat list" where
  "back_vertex_indices vs =
     (let z_min = amin (map vz vs);
          z_threshold = z_min + 0.5
      in filter (\<lambda>i. \<bar>vz (vs ! i) - z_min\<bar> < z_threshold) [0..<length vs])"

text \<open>Lines 29-44: the grid of candidate points over the bounding box of the back vertices.\<close>

definition grid_vertices :: "vertex list \<Rightarrow> real \<Rightarrow> vertex list" where
  "grid_vertices back_verts z_min =
     (let x_min = amin (map vx back_verts); y_min = amin (map vy back_verts);
          x_max = amax (map vx back_verts); y_max = amax (map vy back_verts);
          grid_density = 2;
          x_points = arange x_min x_max grid_density;
          y_points = arange y_min y_max grid_density
      in concat (map (\<lambda>x. concat (map (\<lambda>y.
           if x_min \<le> x \<and> x \<le> x_max \<and> y_min \<le> y \<and> y \<le> y_max
           then [(x, y, z_min)] else []) y_points)) x_points))"

text \<open>Line 28: \<^verbatim>\<open>back_verts = vertices[back_vertex_indices]\<close>.\<close>

definition back_verts :: "vertex list \<Rightarrow> vertex list" where
  "back_verts vs = map (\<lambda>i. vs ! i) (back_vertex_indices vs)"

text \<open>Lines 50-57: the back vertices and the grid points, rounded, without duplicates.\<close>

definition unique_points :: "vertex list \<Rightarrow> vertex list" where
  "unique_points vs =
     (let z_min = amin (map vz vs);
          new_vertices = grid_vertices (back_verts vs) z_min;
          all_back_points = back_verts vs @ new_vertices
      in unique_rows (map round2_row all_back_points))"

text \<open>
  Lines 13-70: the vertex and face arrays handed to the \<^verbatim>\<open>Trimesh\<close> constructor at
  line 73, or \<open>None\<close> for the early return of line 25. The triangulation
  \<^verbatim>\<open>scipy.spatial.Delaunay\<close> is a parameter: it maps the 2D points to index triples
  into them, or fails.
\<close>

definition fill_battery_gap_build ::
  "((real \<times> real) list \<Rightarrow> face list option) \<Rightarrow> mesh \<Rightarrow> error + mesh option" where
  "fill_battery_gap_build delaunay m =
     (let vs = vertices m; fs = faces m in
      if vs = [] then Inl ValueError else
      let z_min = amin (map vz vs) in
      if back_vertex_indices vs = [] then Inr None else
      let new_vertices = grid_vertices (back_verts vs) z_min in
      if new_vertices \<noteq> [] then
        (if 3 < length (unique_points vs) then
           (case delaunay (map (\<lambda>p. (vx p, vy p)) (unique_points vs)) of
              None \<Rightarrow> Inl QhullError
            | Some simplices \<Rightarrow>
                (let vertex_offset = length vs;
                     new_faces = map (map_face (\<lambda>i. i + vertex_offset)) simplices
                 in Inr (Some \<lparr>vertices = vs @ unique_points vs, faces = fs @ new_faces\<rparr>)))
         else Inr (Some \<lparr>vertices = vs, faces = fs\<rparr>))
      else Inr (Some \<lparr>vertices = vs, faces = fs\<rparr>))"

definition fill_battery_gap ::
  "((real \<times> real) list \<Rightarrow> face list option) \<Rightarrow> mesh \<Rightarrow> error + mesh" where
  "fill_battery_gap delaunay m =
     (case fill_battery_gap_build delaunay m of
        Inl e \<Rightarrow> Inl e
      | Inr None \<Rightarrow> Inr m
      | Inr (Some filled) \<Rightarrow> repair filled)"

text \<open>
  \<^verbatim>\<open>find_battery_gap\<close> of \<^verbatim>\<open>bbkm/analyzer.py\<close> (lines 12-60): the corners of the central
  search box, 60 percent of the bounding box of the bottom vertices.
\<close>

definition find_battery_gap :: "mesh \<Rightarrow> error + (vertex \<times> vertex) option" where
  "find_battery_gap m =
     (let vs = vertices m in
      if vs = [] then Inl ValueError else
      let z_min = amin (map vz vs);
          z_threshold = z_min + 2;
          bottom_verts = filter (\<lambda>v. vz v \<le> z_threshold) vs in
      if bottom_verts = [] then Inr None else
      let bounds_min_x = amin (map vx bottom_verts); bounds_min_y = amin (map vy bottom_verts);
          bounds_max_x = amax (map vx bottom_verts); bounds_max_y = amax (map vy bottom_verts);
          x_center = (bounds_min_x + bounds_max_x) / 2;
          y_center = (bounds_min_y + bounds_max_y) / 2;
          gap_search_width = (bounds_max_x - bounds_min_x) * 0.6;
          gap_search_height = (bounds_max_y - bounds_min_y) * 0.6
      in Inr (Some ((x_center - gap_search_width / 2, y_center - gap_search_height / 2, z_min),
                    (x_center + gap_search_width / 2, y_center + gap_search_height / 2,
                     z_min + 5))))"

section \<open>Annular recess: \<^verbatim>\<open>add_magsafe_recess\<close>\<close>

text \<open>
  Modelled from the spec: \<^verbatim>\<open>Trimesh.bounds\<close> is code of the trimesh library. Spec 4.3:
  the default centre is the midpoint of the XY bounding box of the mesh. The box is the
  one of the faces of the mesh, that is, of the vertices that a face references; a mesh
  without such a vertex has the bounds \<^verbatim>\<open>None\<close>.
\<close>

definition mesh_bounds :: "mesh \<Rightarrow> (vertex \<times> vertex) option" where
  "mesh_bounds m =
     (let in_mesh = map (\<lambda>i. vertices m ! i)
                        (filter (referenced (faces m)) [0..<length (vertices m)])
      in if in_mesh = [] then None
         else Some ((amin (map vx in_mesh), amin (map vy in_mesh), amin (map vz in_mesh)),
                    (amax (map vx in_mesh), amax (map vy in_mesh), amax (map vz in_mesh))))"

text \<open>Lines 97-103: the centre of the recess.\<close>

definition recess_center :: "mesh \<Rightarrow> (real \<times> real) option \<Rightarrow> error + real \<times> real" where
  "recess_center m position =
     (case position of
        None \<Rightarrow>
          (case mesh_bounds m of
             None \<Rightarrow> Inl TypeError
           | Some (lo, hi) \<Rightarrow> Inr ((vx lo + vx hi) / 2, (vy lo + vy hi) / 2))
      | Some c \<Rightarrow> Inr c)"

text \<open>Lines 110-127: the distance in the XY plane and the three masks.\<close>

definition distance_from_center :: "real \<Rightarrow> real \<Rightarrow> vertex \<Rightarrow> real" where
  "distance_from_center center_x center_y v =
     sqrt ((vx v - center_x)\<^sup>2 + (vy v - center_y)\<^sup>2)"

definition back_surface_mask :: "real \<Rightarrow> vertex \<Rightarrow> bool" where
  "back_surface_mask z_min v = (\<bar>vz v - z_min\<bar> < 0.5)"

definition inner_circle_mask :: "real \<Rightarrow> real \<Rightarrow> real \<Rightarrow> real \<Rightarrow> vertex \<Rightarrow> bool" where
  "inner_circle_mask center_x center_y inner_radius z_min v =
     (distance_from_center center_x center_y v \<le> inner_radius \<and> back_surface_mask z_min v)"

definition ring_area_mask :: "real \<Rightarrow> real \<Rightarrow> real \<Rightarrow> real \<Rightarrow> real \<Rightarrow> vertex \<Rightarrow> bool" where
  "ring_area_mask center_x center_y inner_radius outer_radius z_min v =
     (inner_radius < distance_from_center center_x center_y v \<and>
      distance_from_center center_x center_y v \<le> outer_radius \<and>
      back_surface_mask z_min v)"

text \<open>Line 130: \<^verbatim>\<open>vertices[ring_area_mask, 2] += depth\<close>.\<close>

definition displace_ring ::
  "real \<Rightarrow> real \<Rightarrow> real \<Rightarrow> real \<Rightarrow> real \<Rightarrow> real \<Rightarrow> vertex list \<Rightarrow> vertex list" where
  "displace_ring center_x center_y inner_radius outer_radius depth z_min vs =
     map (\<lambda>v. if ring_area_mask center_x center_y inner_radius outer_radius z_min v
               then (vx v, vy v, vz v + depth) else v) vs"

text \<open>Lines 136-137: \<^verbatim>\<open>np.linspace(0, 2*np.pi, num_segments, endpoint=False)\<close>.\<close>

definition num_segments :: nat where
  "num_segments = 64"

definition angles :: "real list" where
  "angles = map (\<lambda>i. real i * (2 * pi / real num_segments)) [0..<num_segments]"

text \<open>Lines 143-158: bottom and top vertex of one wall at every angle.\<close>

definition wall_vertices :: "real \<Rightarrow> real \<Rightarrow> real \<Rightarrow> real \<Rightarrow> real \<Rightarrow> vertex list" where
  "wall_vertices center_x center_y radius z_min depth =
     concat (map (\<lambda>angle.
       (let x = center_x + radius * cos angle;
            y = center_y + radius * sin angle
        in [(x, y, z_min), (x, y, z_min + depth)])) angles)"

text \<open>Lines 167-190: the two triangles of segment \<open>i\<close> of the outer and of the inner wall.\<close>

definition outer_wall_faces :: "nat \<Rightarrow> nat \<Rightarrow> face list" where
  "outer_wall_faces vertex_offset i =
     (let next_i = (i + 1) mod num_segments;
          v1 = vertex_offset + 2 * i;
          v2 = vertex_offset + 2 * i + 1;
          v3 = vertex_offset + 2 * next_i + 1;
          v4 = vertex_offset + 2 * next_i
      in [(v1, v2, v3), (v1, v3, v4)])"

definition inner_wall_faces :: "nat \<Rightarrow> nat \<Rightarrow> face list" where
  "inner_wall_faces vertex_offset i =
     (let next_i = (i + 1) mod num_segments;
          v1 = vertex_offset + 2 * num_segments + 2 * i;
          v2 = vertex_offset + 2 * num_segments + 2 * i + 1;
          v3 = vertex_offset + 2 * num_segments + 2 * next_i + 1;
          v4 = vertex_offset + 2 * num_segments + 2 * next_i
      in [(v1, v4, v3), (v1, v3, v2)])"

definition wall_faces :: "nat \<Rightarrow> face list" where
  "wall_faces vertex_offset =
     concat (map (\<lambda>i. outer_wall_faces vertex_offset i @ inner_wall_faces vertex_offset i)
                 [0..<num_segments])"

text \<open>
  Lines 93-194: the vertex and face arrays handed to the \<^verbatim>\<open>Trimesh\<close> constructor at
  line 197.
\<close>

definition add_magsafe_recess_build ::
  "mesh \<Rightarrow> real \<Rightarrow> real \<Rightarrow> real \<Rightarrow> (real \<times> real) option \<Rightarrow> error + mesh" where
  "add_magsafe_recess_build m outer_radius inner_radius depth position =
     (case recess_center m position of
        Inl e \<Rightarrow> Inl e
      | Inr (center_x, center_y) \<Rightarrow>
          (let vs = vertices m; fs = faces m in
           if vs = [] then Inl ValueError else
           let z_min = amin (map vz vs);
               moved = displace_ring center_x center_y inner_radius outer_radius depth z_min vs;
               new_vertices = wall_vertices center_x center_y outer_radius z_min depth
                            @ wall_vertices center_x center_y inner_radius z_min depth
           in if new_vertices \<noteq> [] then
                (let vertex_offset = length moved;
                     new_faces = wall_faces vertex_offset
                 in Inr \<lparr>vertices = moved @ new_vertices,
                         faces = (if new_faces \<noteq> [] then fs @ new_faces else fs)\<rparr>)
              else Inr \<lparr>vertices = moved, faces = fs\<rparr>))"

definition add_magsafe_recess ::
  "mesh \<Rightarrow> real \<Rightarrow> real \<Rightarrow> real \<Rightarrow> (real \<times> real) option \<Rightarrow> error + mesh" where
  "add_magsafe_recess m outer_radius inner_radius depth position =
     (case add_magsafe_recess_build m outer_radius inner_radius depth position of
        Inl e \<Rightarrow> Inl e
      | Inr built \<Rightarrow>
          (case repair built of
             Inl e \<Rightarrow> Inl e
           | Inr repaired \<Rightarrow> Inr (fix_normals repaired)))"

section \<open>Orchestration: \<^verbatim>\<open>apply_modifications\<close>\<close>

text \<open>
  Lines 216-245. The messages printed are not modelled; the read of the back plate at
  line 238 is, because the minimum of an empty vertex array raises.
\<close>

definition apply_modifications ::
  "((real \<times> real) list \<Rightarrow> face list option) \<Rightarrow> mesh \<Rightarrow> bool \<Rightarrow> bool \<Rightarrow>
     (real \<times> real) option \<Rightarrow> error + mesh" where
  "apply_modifications delaunay m remove_battery_gap add_magsafe magsafe_position =
     (case (if remove_battery_gap then fill_battery_gap delaunay m else Inr m) of
        Inl e \<Rightarrow> Inl e
      | Inr m1 \<Rightarrow>
          (case (if add_magsafe then add_magsafe_recess m1 28 22.5 2.5 magsafe_position
                 else Inr m1) of
             Inl e \<Rightarrow> Inl e
           | Inr m2 \<Rightarrow>
               (let m3 = fix_normals m2 in
                if vertices m3 = [] then Inl ValueError else Inr m3)))"

section \<open>Notions used to state the wall topology\<close>

text \<open>The number of faces of a list that contain both ends of the edge \<open>{a, b}\<close>.\<close>

definition seam_count :: "face list \<Rightarrow> nat \<Rightarrow> nat \<Rightarrow> nat" where
  "seam_count fs a b = length (filter (\<lambda>f. a \<in> face_set f \<and> b \<in> face_set f) fs)"

text \<open>Face \<open>g\<close> is face \<open>f\<close> read backwards, from any corner.\<close>

definition reversed_winding :: "face \<Rightarrow> face \<Rightarrow> bool" where
  "reversed_winding f g = (case f of (a, b, c) \<Rightarrow> g \<in> set [(c, b, a), (b, a, c), (a, c, b)])"

section \<open>The invariant that the repair establishes\<close>

text \<open>
  Faces in range, no two vertices with the same rounded coordinates, no degenerate face,
  no two faces on the same vertex set, and no vertex without a face.
\<close>

definition repaired :: "mesh \<Rightarrow> bool" where
  "repaired m \<longleftrightarrow>
     faces_in_range m \<and>
     distinct (map vertex_key (vertices m)) \<and>
     (\<forall>f \<in> set (faces m). \<not> degenerate (vertices m) f) \<and>
     distinct (map face_set (faces m)) \<and>
     (\<forall>i < length (vertices m). referenced (faces m) i)"

section \<open>Notions used to state what the operations preserve\<close>

text \<open>A face with the same winding or with the reversed one.\<close>

definition same_or_reversed :: "face \<Rightarrow> face \<Rightarrow> bool" where
  "same_or_reversed f g \<longleftrightarrow> g = f \<or> g = flip f"

text \<open>The opposite vector.\<close>

definition vneg :: "vertex \<Rightarrow> vertex" where
  "vneg v = (- vx v, - vy v, - vz v)"

text \<open>
  An operation kept the faces in range: it returned a mesh whose faces are in range, or
  it raised something else than the error of an index out of range.
\<close>

definition in_range_result :: "error + mesh \<Rightarrow> bool" where
  "in_range_result x = (case x of Inl e \<Rightarrow> e \<noteq> IndexError | Inr r \<Rightarrow> faces_in_range r)"

text \<open>The corner points of a face.\<close>

definition face_points :: "vertex list \<Rightarrow> face \<Rightarrow> vertex set" where
  "face_points vs f = (\<lambda>i. vs ! i) ` face_set f"

section \<open>Back-plane selection\<close>

lemma back_vertex_indices_set:
  "set (back_vertex_indices vs) =
     {i. i < length vs \<and> \<bar>vz (vs ! i) - amin (map vz vs)\<bar> < amin (map vz vs) + 0.5}"
  by (auto simp: back_vertex_indices_def Let_def)

text \<open>
  C3. The claim: in both the gap fill and the recess, the back-surface vertices are
  exactly those with \<open>\<bar>z - z_min\<bar> < 0.5\<close>, whatever the scale of the mesh. The recess
  compares with the constant 0.5 (\<open>back_surface_mask\<close>). The gap fill compares the
  distance with \<open>z_min + 0.5\<close>: on a back plane at height 10 it selects a vertex 5 mm above
  the plane, which is not within 0.5 mm of it.
\<close>

theorem fill_back_selection_uses_z_min_plus_half:
  "back_vertex_indices [(0, 0, 10), (1, 0, 10), (0, 1, 15)] = [0, 1, 2] \<and>
   \<not> \<bar>vz (0, 1, 15) - amin (map vz [(0, 0, 10), (1, 0, 10), (0, 1, 15)])\<bar> < 0.5"
  by code_simp

section \<open>Degenerate point sets\<close>

lemma mesh_eta [simp]: "\<lparr>vertices = vertices m, faces = faces m\<rparr> = (m::mesh)"
  by (cases m) simp

text \<open>
  C8. When at most three unique points remain after the rounding and the removal of
  duplicates, \<^verbatim>\<open>fill_battery_gap\<close> does not triangulate: whatever the triangulation would
  have answered, the arrays it hands on are the vertices and faces of the input, and the
  result is the repaired input, not an error of the triangulation.
\<close>

theorem fill_skips_triangulation_below_four_points:
  assumes "vertices m \<noteq> []"
      and "back_vertex_indices (vertices m) \<noteq> []"
      and "length (unique_points (vertices m)) \<le> 3"
  shows "fill_battery_gap_build delaunay m = Inr (Some m) \<and>
         fill_battery_gap delaunay m = repair m"
  using assms by (simp add: fill_battery_gap_build_def fill_battery_gap_def Let_def)

theorem fill_skips_triangulation_below_four_points_witness:
  "vertices \<lparr>vertices = [(0, 0, 0), (1, 0, 0), (0, 1, 0)], faces = [(0, 1, 2)]\<rparr> \<noteq> [] \<and>
   back_vertex_indices [(0, 0, 0), (1, 0, 0), (0, 1, 0)] \<noteq> [] \<and>
   length (unique_points [(0, 0, 0), (1, 0, 0), (0, 1, 0)]) \<le> 3 \<and>
   fill_battery_gap_build (\<lambda>pts. None)
       \<lparr>vertices = [(0, 0, 0), (1, 0, 0), (0, 1, 0)], faces = [(0, 1, 2)]\<rparr>
     = Inr (Some \<lparr>vertices = [(0, 0, 0), (1, 0, 0), (0, 1, 0)], faces = [(0, 1, 2)]\<rparr>) \<and>
   fill_battery_gap (\<lambda>pts. None)
       \<lparr>vertices = [(0, 0, 0), (1, 0, 0), (0, 1, 0)], faces = [(0, 1, 2)]\<rparr>
     = Inr \<lparr>vertices = [(0, 0, 0), (1, 0, 0), (0, 1, 0)], faces = [(0, 1, 2)]\<rparr>"
proof -
  let ?m = "\<lparr>vertices = [(0, 0, 0), (1, 0, 0), (0, 1, 0)], faces = [(0, 1, 2)]\<rparr>"
  have h1: "vertices ?m \<noteq> []" by simp
  have h2: "back_vertex_indices (vertices ?m) \<noteq> []" by code_simp
  have h3: "length (unique_points (vertices ?m)) \<le> 3" by code_simp
  have r: "repair ?m = Inr ?m" by code_simp
  from fill_skips_triangulation_below_four_points [OF h1 h2 h3, of "\<lambda>pts. None"] h1 h2 h3 r
  show ?thesis by simp
qed

section \<open>Footprint of the gap fill\<close>

lemma arange_mem:
  "x \<in> set (arange a b 2) \<longleftrightarrow> (\<exists>i::nat. x = a + real i * 2 \<and> a + real i * 2 < b)"
proof -
  have "\<And>i::nat. (i < nat \<lceil>(b - a) / 2\<rceil>) = (a + real i * 2 < b)"
  proof -
    fix i :: nat
    have "(i < nat \<lceil>(b - a) / 2\<rceil>) = (int i < \<lceil>(b - a) / 2\<rceil>)" by linarith
    also have "\<dots> = (of_int (int i) < (b - a) / 2)" by (rule less_ceiling_iff)
    also have "\<dots> = (a + real i * 2 < b)" by (simp add: field_simps)
    finally show "(i < nat \<lceil>(b - a) / 2\<rceil>) = (a + real i * 2 < b)" .
  qed
  then show ?thesis by (auto simp: arange_def)
qed

lemma amin_le_amax: "xs \<noteq> [] \<Longrightarrow> amin xs \<le> amax xs"
  by (induction xs rule: amin.induct) (auto simp: min_def max_def)

lemma grid_vertices_set:
  "set (grid_vertices bv z_min) =
     {(amin (map vx bv) + real i * 2, amin (map vy bv) + real j * 2, z_min) | i j.
        amin (map vx bv) + real i * 2 < amax (map vx bv) \<and>
        amin (map vy bv) + real j * 2 < amax (map vy bv)}"
  by (auto simp: grid_vertices_def Let_def arange_mem)




section \<open>Properties of the repair sequence\<close>

subsection \<open>Deduplication by a key\<close>

lemma set_dedup_by_subset: "set (dedup_by k xs) \<subseteq> set xs"
  by (induction k xs rule: dedup_by.induct) auto

lemma keys_dedup_by: "k ` set (dedup_by k xs) = k ` set xs"
  by (induction k xs rule: dedup_by.induct) auto

lemma distinct_keys_dedup_by: "distinct (map k (dedup_by k xs))"
proof (induction k xs rule: dedup_by.induct)
  case (1 k)
  show ?case by simp
next
  case (2 k x xs)
  have "k x \<notin> k ` set (dedup_by k (filter (\<lambda>y. k y \<noteq> k x) xs))"
    unfolding keys_dedup_by by auto
  with 2 show ?case by simp
qed

lemma dedup_by_id: "distinct (map k xs) \<Longrightarrow> dedup_by k xs = xs"
proof (induction xs)
  case Nil
  show ?case by simp
next
  case (Cons x xs)
  from Cons.prems have "\<forall>y \<in> set xs. k y \<noteq> k x"
    by (metis distinct.simps(2) image_eqI list.simps(9) set_map)
  then have "filter (\<lambda>y. k y \<noteq> k x) xs = xs"
    by (simp add: filter_id_conv)
  with Cons show ?case by simp
qed

lemma length_dedup_by_le: "length (dedup_by k xs) \<le> length xs"
proof (induction k xs rule: dedup_by.induct)
  case (1 k)
  show ?case by simp
next
  case (2 k x xs)
  have "length (filter (\<lambda>y. k y \<noteq> k x) xs) \<le> length xs" by simp
  with 2 have "length (dedup_by k (filter (\<lambda>y. k y \<noteq> k x) xs)) \<le> length xs"
    by linarith
  then show ?case by simp
qed

subsection \<open>Index of the first match\<close>

lemma index_where_less: "\<exists>x \<in> set xs. P x \<Longrightarrow> index_where P xs < length xs"
  by (induction xs) auto

lemma nth_index_where: "\<exists>x \<in> set xs. P x \<Longrightarrow> P (xs ! index_where P xs)"
  by (induction xs) auto

lemma index_where_distinct:
  "distinct (map k xs) \<Longrightarrow> i < length xs \<Longrightarrow> index_where (\<lambda>w. k w = k (xs ! i)) xs = i"
proof (induction xs arbitrary: i)
  case Nil
  then show ?case by simp
next
  case (Cons x xs)
  show ?case
  proof (cases i)
    case 0
    then show ?thesis by simp
  next
    case (Suc j)
    with Cons.prems have "k x \<noteq> k (xs ! j)" by auto
    with Suc Cons show ?thesis by simp
  qed
qed

subsection \<open>Faces in range\<close>

lemma face_in_range_iff: "face_in_range n f \<longleftrightarrow> (\<forall>i \<in> face_set f. i < n)"
  by (cases f) (simp add: face_in_range_def face_set_def face_indices_def)

lemma faces_in_range_iff:
  "faces_in_range m \<longleftrightarrow> (\<forall>f \<in> set (faces m). \<forall>i \<in> face_set f. i < length (vertices m))"
  by (simp add: faces_in_range_def list_all_iff face_in_range_iff)

lemma face_set_map_face: "face_set (map_face r f) = r ` face_set f"
  by (cases f) (simp add: face_set_def map_face_def face_indices_def)

lemma map_face_cong: "(\<And>i. i \<in> face_set f \<Longrightarrow> r i = s i) \<Longrightarrow> map_face r f = map_face s f"
  by (cases f) (simp add: face_set_def map_face_def face_indices_def)

lemma map_face_id: "(\<And>i. i \<in> face_set f \<Longrightarrow> r i = i) \<Longrightarrow> map_face r f = f"
  by (cases f) (simp add: face_set_def map_face_def face_indices_def)

subsection \<open>Merging vertices\<close>

lemma vertices_merge [simp]: "vertices (merge_vertices m) = dedup_by vertex_key (vertices m)"
  by (simp add: merge_vertices_def Let_def)

lemma faces_merge:
  "faces (merge_vertices m) =
     map (map_face (\<lambda>i. index_where (\<lambda>w. vertex_key w = vertex_key (vertices m ! i))
                          (dedup_by vertex_key (vertices m)))) (faces m)"
  by (simp add: merge_vertices_def Let_def)

lemma merge_remap_less:
  assumes "i < length vs"
  shows "index_where (\<lambda>w. vertex_key w = vertex_key (vs ! i)) (dedup_by vertex_key vs)
         < length (dedup_by vertex_key vs)"
proof -
  have "vertex_key (vs ! i) \<in> vertex_key ` set vs" using assms by simp
  then have "vertex_key (vs ! i) \<in> vertex_key ` set (dedup_by vertex_key vs)"
    by (simp only: keys_dedup_by)
  then have "\<exists>w \<in> set (dedup_by vertex_key vs). vertex_key w = vertex_key (vs ! i)" by auto
  then show ?thesis by (rule index_where_less)
qed

lemma faces_in_range_merge: "faces_in_range m \<Longrightarrow> faces_in_range (merge_vertices m)"
  by (auto simp: faces_in_range_iff faces_merge face_set_map_face merge_remap_less)

lemma distinct_keys_merge: "distinct (map vertex_key (vertices (merge_vertices m)))"
  by (simp add: distinct_keys_dedup_by)

lemma merge_vertices_id:
  assumes "distinct (map vertex_key (vertices m))" and "faces_in_range m"
  shows "merge_vertices m = m"
proof -
  have v: "dedup_by vertex_key (vertices m) = vertices m"
    using assms(1) by (rule dedup_by_id)
  have "map (map_face (\<lambda>i. index_where (\<lambda>w. vertex_key w = vertex_key (vertices m ! i))
                          (vertices m))) (faces m) = faces m"
  proof (rule map_idI)
    fix f assume f: "f \<in> set (faces m)"
    show "map_face (\<lambda>i. index_where (\<lambda>w. vertex_key w = vertex_key (vertices m ! i))
                          (vertices m)) f = f"
    proof (rule map_face_id)
      fix i assume "i \<in> face_set f"
      with f assms(2) have "i < length (vertices m)" by (auto simp: faces_in_range_iff)
      with assms(1) show "index_where (\<lambda>w. vertex_key w = vertex_key (vertices m ! i)) (vertices m) = i"
        by (rule index_where_distinct)
    qed
  qed
  then show ?thesis by (simp add: merge_vertices_def Let_def v)
qed

subsection \<open>Dropping unreferenced vertices\<close>

lemma filter_upt_split:
  assumes "j < n" and "P j"
  shows "filter P [0..<n] = filter P [0..<j] @ j # filter P [Suc j..<n]"
proof -
  from assms(1) obtain k where n: "n = j + Suc k"
    using less_iff_Suc_add by auto
  have "[0..<j + Suc k] = [0..<j] @ [j..<j + Suc k]"
    by (rule upt_add_eq_append) simp
  moreover have "[j..<j + Suc k] = j # [Suc j..<j + Suc k]"
    by (rule upt_conv_Cons) simp
  ultimately have "[0..<n] = [0..<j] @ j # [Suc j..<n]"
    unfolding n by simp
  then show ?thesis using assms(2) by simp
qed

lemma rank_less:
  "j < n \<Longrightarrow> P j \<Longrightarrow> length (filter P [0..<j]) < length (filter P [0..<n])"
  by (simp add: filter_upt_split [of j n P])

lemma nth_rank:
  "j < n \<Longrightarrow> P j \<Longrightarrow> filter P [0..<n] ! length (filter P [0..<j]) = j"
  by (simp add: filter_upt_split [of j n P] nth_append)

lemma rank_inj:
  assumes "a < n" "P a" "b < n" "P b"
    and "length (filter P [0..<a]) = length (filter P [0..<b])"
  shows "a = b"
  by (metis assms nth_rank)

lemma rank_nth:
  assumes "p < length (filter P [0..<n])"
  shows "length (filter P [0..<filter P [0..<n] ! p]) = p"
proof -
  let ?ks = "filter P [0..<n]"
  have mem: "?ks ! p \<in> set ?ks" using assms by (rule nth_mem)
  then have j: "?ks ! p < n" "P (?ks ! p)" by auto
  have d: "distinct ?ks" by simp
  have "length (filter P [0..<?ks ! p]) < length ?ks" using j by (rule rank_less)
  moreover have "?ks ! length (filter P [0..<?ks ! p]) = ?ks ! p" using j by (rule nth_rank)
  ultimately show ?thesis using d assms by (simp add: nth_eq_iff_index_eq)
qed

lemma vertices_unref:
  "vertices (remove_unreferenced_vertices m) =
     map (\<lambda>i. vertices m ! i) (filter (referenced (faces m)) [0..<length (vertices m)])"
  by (simp add: remove_unreferenced_vertices_def Let_def)

lemma faces_unref:
  "faces (remove_unreferenced_vertices m) =
     map (map_face (\<lambda>j. length (filter (referenced (faces m)) [0..<j]))) (faces m)"
  by (simp add: remove_unreferenced_vertices_def Let_def)

lemma referenced_in_face: "f \<in> set fs \<Longrightarrow> i \<in> face_set f \<Longrightarrow> referenced fs i"
  by (auto simp: referenced_def)

lemma faces_in_range_unref:
  assumes "faces_in_range m"
  shows "faces_in_range (remove_unreferenced_vertices m)"
proof -
  have "\<And>f i. f \<in> set (faces m) \<Longrightarrow> i \<in> face_set f \<Longrightarrow>
      length (filter (referenced (faces m)) [0..<i])
        < length (filter (referenced (faces m)) [0..<length (vertices m)])"
    using assms by (intro rank_less) (auto simp: faces_in_range_iff referenced_in_face)
  then show ?thesis
    by (auto simp: faces_in_range_iff [of "remove_unreferenced_vertices m"]
        vertices_unref faces_unref face_set_map_face)
qed

lemma unref_nth_vertex:
  assumes "faces_in_range m" "f \<in> set (faces m)" "i \<in> face_set f"
  shows "vertices (remove_unreferenced_vertices m)
           ! length (filter (referenced (faces m)) [0..<i]) = vertices m ! i"
proof -
  have i: "i < length (vertices m)" "referenced (faces m) i"
    using assms by (auto simp: faces_in_range_iff referenced_in_face)
  then show ?thesis
    by (simp add: vertices_unref rank_less nth_rank)
qed

lemma all_referenced_unref:
  assumes "p < length (vertices (remove_unreferenced_vertices m))"
  shows "referenced (faces (remove_unreferenced_vertices m)) p"
proof -
  let ?ref = "referenced (faces m)"
  let ?ks = "filter ?ref [0..<length (vertices m)]"
  from assms have p: "p < length ?ks" by (simp add: vertices_unref)
  then have "?ks ! p \<in> set ?ks" by (rule nth_mem)
  then have "?ref (?ks ! p)" by simp
  then obtain f where f: "f \<in> set (faces m)" "?ks ! p \<in> face_set f"
    by (auto simp: referenced_def)
  have "length (filter ?ref [0..<?ks ! p]) = p" using p by (rule rank_nth)
  then have "p = (\<lambda>j. length (filter ?ref [0..<j])) (?ks ! p)" by simp
  then have "p \<in> (\<lambda>j. length (filter ?ref [0..<j])) ` face_set f"
    using f(2) by (rule image_eqI)
  then have "p \<in> face_set (map_face (\<lambda>j. length (filter ?ref [0..<j])) f)"
    by (simp only: face_set_map_face)
  with f(1) show ?thesis by (auto simp: referenced_def faces_unref)
qed

lemma unref_id:
  assumes "\<forall>i < length (vertices m). referenced (faces m) i" and "faces_in_range m"
  shows "remove_unreferenced_vertices m = m"
proof -
  have all: "\<And>j. j \<le> length (vertices m) \<Longrightarrow> filter (referenced (faces m)) [0..<j] = [0..<j]"
    using assms by (auto simp: filter_id_conv)
  have v: "map (\<lambda>i. vertices m ! i) (filter (referenced (faces m)) [0..<length (vertices m)])
           = vertices m"
    by (simp add: all map_nth)
  have "map (map_face (\<lambda>j. length (filter (referenced (faces m)) [0..<j]))) (faces m) = faces m"
  proof (rule map_idI)
    fix f assume f: "f \<in> set (faces m)"
    show "map_face (\<lambda>j. length (filter (referenced (faces m)) [0..<j])) f = f"
    proof (rule map_face_id)
      fix i assume i: "i \<in> face_set f"
      with f assms(2) have "i < length (vertices m)"
        by (auto simp: faces_in_range_iff)
      then have "i \<le> length (vertices m)" by simp
      then show "length (filter (referenced (faces m)) [0..<i]) = i"
        by (simp add: all)
    qed
  qed
  then show ?thesis by (simp add: remove_unreferenced_vertices_def Let_def v)
qed

subsection \<open>Removing degenerate and duplicate faces\<close>

lemma vertices_remove_degenerate [simp]:
  "vertices (remove_degenerate_faces m) = vertices m"
  by (simp add: remove_degenerate_faces_def)

lemma faces_remove_degenerate:
  "faces (remove_degenerate_faces m) = filter (\<lambda>f. \<not> degenerate (vertices m) f) (faces m)"
  by (simp add: remove_degenerate_faces_def)

lemma vertices_remove_duplicate [simp]:
  "vertices (remove_duplicate_faces m) = vertices m"
  by (simp add: remove_duplicate_faces_def)

lemma faces_remove_duplicate:
  "faces (remove_duplicate_faces m) = dedup_by face_set (faces m)"
  by (simp add: remove_duplicate_faces_def)

lemma faces_in_range_remove_degenerate:
  "faces_in_range m \<Longrightarrow> faces_in_range (remove_degenerate_faces m)"
  by (auto simp: faces_in_range_iff faces_remove_degenerate)

lemma faces_in_range_remove_duplicate:
  "faces_in_range m \<Longrightarrow> faces_in_range (remove_duplicate_faces m)"
  using set_dedup_by_subset [of face_set "faces m"]
  by (auto simp: faces_in_range_iff faces_remove_duplicate)

lemma remove_degenerate_id:
  "\<forall>f \<in> set (faces m). \<not> degenerate (vertices m) f \<Longrightarrow> remove_degenerate_faces m = m"
  by (simp add: remove_degenerate_faces_def filter_id_conv)

lemma remove_duplicate_id:
  "distinct (map face_set (faces m)) \<Longrightarrow> remove_duplicate_faces m = m"
  by (simp add: remove_duplicate_faces_def dedup_by_id)

subsection \<open>What the last step establishes\<close>

lemma distinct_keys_unref:
  assumes "distinct (map vertex_key (vertices m))"
  shows "distinct (map vertex_key (vertices (remove_unreferenced_vertices m)))"
proof -
  let ?ks = "filter (referenced (faces m)) [0..<length (vertices m)]"
  have r: "\<forall>i \<in> set ?ks. i < length (map vertex_key (vertices m))" by simp
  have "inj_on (nth (map vertex_key (vertices m))) (set ?ks)"
    using assms r by (rule inj_on_nth)
  then have "distinct (map (nth (map vertex_key (vertices m))) ?ks)"
    by (simp add: distinct_map)
  moreover have "map (nth (map vertex_key (vertices m))) ?ks =
                 map vertex_key (map (\<lambda>i. vertices m ! i) ?ks)"
    by simp
  ultimately show ?thesis by (simp only: vertices_unref)
qed

lemma rank_eq_iff:
  assumes "faces_in_range m" "f \<in> set (faces m)" "a \<in> face_set f" "b \<in> face_set f"
  shows "(length (filter (referenced (faces m)) [0..<a]) =
          length (filter (referenced (faces m)) [0..<b])) = (a = b)"
proof -
  have "a < length (vertices m)" "referenced (faces m) a"
       "b < length (vertices m)" "referenced (faces m) b"
    using assms by (auto simp: faces_in_range_iff referenced_in_face)
  then show ?thesis using rank_inj [of a "length (vertices m)" "referenced (faces m)" b] by auto
qed

lemma degenerate_unref:
  assumes "faces_in_range m" "f \<in> set (faces m)"
  shows "degenerate (vertices (remove_unreferenced_vertices m))
           (map_face (\<lambda>j. length (filter (referenced (faces m)) [0..<j])) f)
         = degenerate (vertices m) f"
proof -
  obtain a b c where f: "f = (a, b, c)" by (cases f) auto
  have mem: "a \<in> face_set f" "b \<in> face_set f" "c \<in> face_set f"
    by (simp_all add: f face_set_def face_indices_def)
  note v = unref_nth_vertex [OF assms mem(1)] unref_nth_vertex [OF assms mem(2)]
           unref_nth_vertex [OF assms mem(3)]
  note e = rank_eq_iff [OF assms mem(1) mem(2)] rank_eq_iff [OF assms mem(2) mem(3)]
           rank_eq_iff [OF assms mem(1) mem(3)]
  show ?thesis
    unfolding f degenerate_def map_face_def prod.case
    by (simp only: v e)
qed

lemma no_degenerate_unref:
  assumes "faces_in_range m" "\<forall>f \<in> set (faces m). \<not> degenerate (vertices m) f"
  shows "\<forall>f \<in> set (faces (remove_unreferenced_vertices m)).
           \<not> degenerate (vertices (remove_unreferenced_vertices m)) f"
  using assms by (auto simp: faces_unref degenerate_unref)

lemma distinct_face_sets_unref:
  assumes "faces_in_range m" "distinct (map face_set (faces m))"
  shows "distinct (map face_set (faces (remove_unreferenced_vertices m)))"
proof -
  let ?g = "\<lambda>j. length (filter (referenced (faces m)) [0..<j])"
  have "inj_on ?g (\<Union> (face_set ` set (faces m)))"
  proof (rule inj_onI)
    fix a b
    assume a: "a \<in> \<Union> (face_set ` set (faces m))" and b: "b \<in> \<Union> (face_set ` set (faces m))"
      and eq: "?g a = ?g b"
    have "a < length (vertices m)" "referenced (faces m) a"
         "b < length (vertices m)" "referenced (faces m) b"
      using a b assms(1) by (auto simp: faces_in_range_iff referenced_in_face)
    then show "a = b" using eq by (rule rank_inj)
  qed
  then have "inj_on ((`) ?g) (face_set ` set (faces m))" by (rule inj_on_image)
  then have "distinct (map ((`) ?g) (map face_set (faces m)))"
    using assms(2) by (subst distinct_map) simp
  moreover have "map face_set (faces (remove_unreferenced_vertices m)) =
                 map ((`) ?g) (map face_set (faces m))"
    by (simp add: faces_unref face_set_map_face)
  ultimately show ?thesis by simp
qed

subsection \<open>The repaired mesh\<close>

lemma faces_in_range_repair_steps:
  "faces_in_range m \<Longrightarrow> faces_in_range (repair_steps m)"
  unfolding repair_steps_def
  by (intro faces_in_range_unref faces_in_range_remove_duplicate
      faces_in_range_remove_degenerate faces_in_range_merge)

lemma repaired_repair_steps:
  assumes "faces_in_range m"
  shows "repaired (repair_steps m)"
proof -
  let ?m3 = "remove_duplicate_faces (remove_degenerate_faces (merge_vertices m))"
  have r: "faces_in_range ?m3"
    using assms
    by (intro faces_in_range_remove_duplicate faces_in_range_remove_degenerate
        faces_in_range_merge)
  have k: "distinct (map vertex_key (vertices ?m3))"
    by (simp add: distinct_keys_dedup_by)
  have "set (faces ?m3) \<subseteq> set (faces (remove_degenerate_faces (merge_vertices m)))"
    unfolding faces_remove_duplicate by (rule set_dedup_by_subset)
  then have d: "\<forall>f \<in> set (faces ?m3). \<not> degenerate (vertices ?m3) f"
    by (auto simp: faces_remove_degenerate)
  have u: "distinct (map face_set (faces ?m3))"
    unfolding faces_remove_duplicate by (rule distinct_keys_dedup_by)
  show ?thesis
    unfolding repaired_def repair_steps_def
    using faces_in_range_unref [OF r] distinct_keys_unref [OF k] no_degenerate_unref [OF r d]
      distinct_face_sets_unref [OF r u] all_referenced_unref [of _ ?m3]
    by blast
qed

lemma repair_steps_id:
  assumes "repaired m"
  shows "repair_steps m = m"
proof -
  from assms have "merge_vertices m = m"
    by (intro merge_vertices_id) (simp_all add: repaired_def)
  moreover from assms have "remove_degenerate_faces m = m"
    by (intro remove_degenerate_id) (simp add: repaired_def)
  moreover from assms have "remove_duplicate_faces m = m"
    by (intro remove_duplicate_id) (simp add: repaired_def)
  moreover from assms have "remove_unreferenced_vertices m = m"
    by (intro unref_id) (simp_all add: repaired_def)
  ultimately show ?thesis by (simp add: repair_steps_def)
qed

lemma set_vertices_repair_steps: "set (vertices (repair_steps m)) \<subseteq> set (vertices m)"
proof -
  let ?m3 = "remove_duplicate_faces (remove_degenerate_faces (merge_vertices m))"
  have "set (vertices (remove_unreferenced_vertices ?m3)) \<subseteq> set (vertices ?m3)"
    by (auto simp: vertices_unref)
  moreover have "set (vertices ?m3) \<subseteq> set (vertices m)"
    by (simp add: set_dedup_by_subset)
  ultimately show ?thesis unfolding repair_steps_def by blast
qed

text \<open>
  C7. On every mesh whose faces are in range the repair sequence returns a mesh, and
  repairing that mesh again returns it unchanged, so the vertex count and the face count
  stay the same. (On a mesh with a face out of range the sequence raises and cannot be
  applied a second time.)
\<close>

theorem repair_idempotent:
  assumes "faces_in_range m"
  shows "\<exists>r. repair m = Inr r \<and> repair r = Inr r \<and>
             length (vertices (repair_steps r)) = length (vertices r) \<and>
             length (faces (repair_steps r)) = length (faces r)"
proof -
  have r: "repaired (repair_steps m)" using assms by (rule repaired_repair_steps)
  then have "faces_in_range (repair_steps m)" by (simp add: repaired_def)
  with assms repair_steps_id [OF r] show ?thesis by (simp add: repair_def)
qed

theorem repair_idempotent_witness:
  "faces_in_range \<lparr>vertices = [(5, 5, 5), (0, 0, 0), (1, 0, 0), (0, 1, 0), (0.001, 0, 0)],
                   faces = [(1, 2, 3), (3, 2, 4), (1, 1, 2)]\<rparr> \<and>
   repair \<lparr>vertices = [(5, 5, 5), (0, 0, 0), (1, 0, 0), (0, 1, 0), (0.001, 0, 0)],
           faces = [(1, 2, 3), (3, 2, 4), (1, 1, 2)]\<rparr>
     = Inr \<lparr>vertices = [(0, 0, 0), (1, 0, 0), (0, 1, 0)], faces = [(0, 1, 2)]\<rparr> \<and>
   repair \<lparr>vertices = [(0, 0, 0), (1, 0, 0), (0, 1, 0)], faces = [(0, 1, 2)]\<rparr>
     = Inr \<lparr>vertices = [(0, 0, 0), (1, 0, 0), (0, 1, 0)], faces = [(0, 1, 2)]\<rparr>"
proof -
  let ?m = "\<lparr>vertices = [(5, 5, 5), (0, 0, 0), (1, 0, 0), (0, 1, 0), (0.001, 0, 0)],
             faces = [(1, 2, 3), (3, 2, 4), (1, 1, 2)]\<rparr>"
  have h: "faces_in_range ?m" by code_simp
  have e: "repair ?m = Inr \<lparr>vertices = [(0, 0, 0), (1, 0, 0), (0, 1, 0)], faces = [(0, 1, 2)]\<rparr>"
    by code_simp
  from repair_idempotent [OF h] e h show ?thesis by auto
qed

section \<open>The normal fix only reverses faces\<close>

lemma flip_flip [simp]: "flip (flip f) = f"
  by (cases f) (simp add: flip_def)

lemma face_set_flip [simp]: "face_set (flip f) = face_set f"
  by (cases f) (auto simp: flip_def face_set_def face_indices_def)

lemma same_or_reversed_refl [simp]: "same_or_reversed f f"
  by (simp add: same_or_reversed_def)

lemma same_or_reversed_orient:
  "same_or_reversed f g \<Longrightarrow> same_or_reversed f (orient_to h g)"
  by (auto simp: same_or_reversed_def orient_to_def)

lemma same_or_reversed_flip:
  "same_or_reversed f g \<Longrightarrow> same_or_reversed f (flip g)"
  by (auto simp: same_or_reversed_def)

lemma same_or_reversed_face_set: "same_or_reversed f g \<Longrightarrow> face_set g = face_set f"
  by (auto simp: same_or_reversed_def)

lemma orient_step:
  assumes "list_all2 same_or_reversed fs acc"
  shows "list_all2 same_or_reversed fs (acc[j := orient_to (acc ! q) (acc ! j)])"
proof (cases "j < length acc")
  case True
  with assms have "same_or_reversed (fs ! j) (acc ! j)" by (simp add: list_all2_nthD2)
  then have "same_or_reversed (fs ! j) (orient_to (acc ! q) (acc ! j))"
    by (rule same_or_reversed_orient)
  with assms have "list_all2 same_or_reversed (fs[j := fs ! j])
                     (acc[j := orient_to (acc ! q) (acc ! j)])"
    by (rule list_all2_update_cong)
  then show ?thesis by simp
next
  case False
  then have "acc[j := orient_to (acc ! q) (acc ! j)] = acc" by (simp add: list_update_beyond)
  with assms show ?thesis by simp
qed

lemma orient_fold:
  "list_all2 same_or_reversed fs acc \<Longrightarrow>
   list_all2 same_or_reversed fs
     (fold (\<lambda>j acc. acc[j := orient_to (acc ! q) (acc ! j)]) nb acc)"
  by (induction nb arbitrary: acc) (simp_all add: orient_step)

lemma fix_winding_bfs_same_or_reversed:
  "list_all2 same_or_reversed fs0 fs \<Longrightarrow>
   list_all2 same_or_reversed fs0 (fix_winding_bfs fs qs us)"
proof (induction fs qs us rule: fix_winding_bfs.induct)
  case (1 fs)
  then show ?case by simp
next
  case (2 fs u us)
  then show ?case by simp
next
  case (3 fs q qs us)
  from "3.prems" have "list_all2 same_or_reversed fs0
     (fold (\<lambda>j acc. acc[j := orient_to (acc ! q) (acc ! j)])
        (filter (\<lambda>j. adjacent (fs ! q) (fs ! j)) us) fs)"
    by (rule orient_fold)
  then show ?case using "3.IH" by (simp add: Let_def)
qed

lemma list_all2_refl_same: "list_all2 same_or_reversed fs fs"
  by (simp add: list_all2_refl)

lemma vertices_fix_normals [simp]: "vertices (fix_normals m) = vertices m"
  by (simp add: fix_normals_def fix_inversion_def fix_winding_def)

lemma faces_fix_normals: "list_all2 same_or_reversed (faces m) (faces (fix_normals m))"
proof -
  have w: "list_all2 same_or_reversed (faces m) (faces (fix_winding m))"
    unfolding fix_winding_def
    by (simp add: fix_winding_bfs_same_or_reversed list_all2_refl_same)
  then have "list_all2 same_or_reversed (faces m) (map flip (faces (fix_winding m)))"
    by (simp add: list_all2_map2 list_all2_mono [OF _ same_or_reversed_flip])
  with w show ?thesis by (simp add: fix_normals_def fix_inversion_def)
qed

lemma faces_in_range_fix_normals:
  assumes "faces_in_range m"
  shows "faces_in_range (fix_normals m)"
proof -
  have "\<exists>f \<in> set (faces m). face_set g = face_set f" if "g \<in> set (faces (fix_normals m))" for g
  proof -
    from that obtain i where i: "i < length (faces (fix_normals m))" "faces (fix_normals m) ! i = g"
      by (auto simp: in_set_conv_nth)
    from faces_fix_normals [of m] i have l: "i < length (faces m)"
      and "same_or_reversed (faces m ! i) g"
      by (auto simp: list_all2_conv_all_nth)
    then have "face_set g = face_set (faces m ! i)" by (simp add: same_or_reversed_face_set)
    with l show ?thesis by (metis nth_mem)
  qed
  with assms show ?thesis by (fastforce simp: faces_in_range_iff)
qed

lemma cross_flip:
  "cross (vsub q r) (vsub p r) = vneg (cross (vsub q p) (vsub r p))"
  by (simp add: cross_def vsub_def vneg_def vx_def vy_def vz_def algebra_simps)

lemma dot_vneg [simp]: "dot (vneg u) (vneg u) = dot u u"
  by (simp add: dot_def vneg_def vx_def vy_def vz_def)

lemma vneg_components [simp]:
  "vx (vneg v) = - vx v" "vy (vneg v) = - vy v" "vz (vneg v) = - vz v"
  by (simp_all add: vneg_def vx_def vy_def vz_def)

lemma vneg_triple [simp]: "vneg (x, y, z) = (- x, - y, - z)"
  by (simp add: vneg_def vx_def vy_def vz_def)

lemma face_normal_flip: "face_normal vs (flip f) = vneg (face_normal vs f)"
proof -
  obtain a b c where f: "f = (a, b, c)" by (cases f) auto
  show ?thesis
    unfolding f flip_def face_normal_def prod.case Let_def cross_flip [of "vs ! b" "vs ! c" "vs ! a"]
    by simp
qed

lemma same_or_reversed_normal:
  "same_or_reversed f g \<Longrightarrow> face_normal vs g = face_normal vs f \<or> face_normal vs g = vneg (face_normal vs f)"
  by (auto simp: same_or_reversed_def face_normal_flip)




section \<open>What the gap fill leaves in place\<close>

lemma repair_keeps_face:
  assumes r: "faces_in_range m"
    and f1: "f1 \<in> set (faces (merge_vertices m))"
    and nd: "\<not> degenerate (vertices (merge_vertices m)) f1"
  shows "\<exists>g \<in> set (faces (repair_steps m)).
           face_points (vertices (repair_steps m)) g = face_points (vertices (merge_vertices m)) f1"
proof -
  let ?m1 = "merge_vertices m"
  let ?m2 = "remove_degenerate_faces ?m1"
  let ?m3 = "remove_duplicate_faces ?m2"
  let ?rank = "\<lambda>j. length (filter (referenced (faces ?m3)) [0..<j])"
  have r3: "faces_in_range ?m3"
    using r by (intro faces_in_range_remove_duplicate faces_in_range_remove_degenerate
        faces_in_range_merge)
  from f1 nd have "f1 \<in> set (faces ?m2)" by (simp add: faces_remove_degenerate)
  then have "face_set f1 \<in> face_set ` set (faces ?m2)" by (rule imageI)
  then have "face_set f1 \<in> face_set ` set (faces ?m3)"
    by (simp only: faces_remove_duplicate keys_dedup_by)
  then obtain f3 where f3: "f3 \<in> set (faces ?m3)" "face_set f3 = face_set f1" by auto
  have g: "map_face ?rank f3 \<in> set (faces (remove_unreferenced_vertices ?m3))"
    using f3(1) by (simp add: faces_unref)
  have "face_points (vertices (remove_unreferenced_vertices ?m3)) (map_face ?rank f3)
        = (\<lambda>j. vertices (remove_unreferenced_vertices ?m3) ! ?rank j) ` face_set f3"
    by (simp add: face_points_def face_set_map_face image_image)
  also have "\<dots> = (\<lambda>j. vertices ?m3 ! j) ` face_set f3"
    by (rule image_cong [OF refl]) (rule unref_nth_vertex [OF r3 f3(1)])
  also have "\<dots> = face_points (vertices ?m1) f1"
    by (simp add: face_points_def f3(2))
  finally show ?thesis using g unfolding repair_steps_def by blast
qed

lemma fill_build_cases:
  assumes "fill_battery_gap_build delaunay m = Inr (Some built)"
  shows "built = m \<or>
         (\<exists>ts. built = \<lparr>vertices = vertices m @ unique_points (vertices m),
                         faces = faces m @ ts\<rparr>)"
  using assms
  by (auto simp: fill_battery_gap_build_def Let_def split: if_splits option.splits)

text \<open>
  C6, as stated: every pre-existing face outside the plane band is, as an unordered
  vertex set, a face of the output. The repair at the end of \<^verbatim>\<open>fill_battery_gap\<close> runs
  over the whole mesh. Here the back vertices are the three at height 0, the face
  \<open>(3, 3, 4)\<close> lies at height 10, and the output has lost it.
\<close>

theorem fill_removes_degenerate_face_outside_band:
  "fill_battery_gap (\<lambda>pts. None)
     \<lparr>vertices = [(0, 0, 0), (1, 0, 0), (0, 1, 0), (0, 0, 10), (1, 0, 10), (0, 1, 10)],
      faces = [(0, 1, 2), (3, 4, 5), (3, 3, 4)]\<rparr>
   = Inr \<lparr>vertices = [(0, 0, 0), (1, 0, 0), (0, 1, 0), (0, 0, 10), (1, 0, 10), (0, 1, 10)],
          faces = [(0, 1, 2), (3, 4, 5)]\<rparr> \<and>
   back_vertex_indices [(0, 0, 0), (1, 0, 0), (0, 1, 0), (0, 0, 10), (1, 0, 10), (0, 1, 10)]
     = [0, 1, 2] \<and>
   face_set (3, 3, 4) \<notin> face_set ` set [(0, 1, 2), (3, 4, 5)]"
proof -
  have "face_set (3, 3, 4) \<notin> face_set ` set [(0, 1, 2), (3, 4, 5)]"
    by code_simp
  moreover have "fill_battery_gap (\<lambda>pts. None)
     \<lparr>vertices = [(0, 0, 0), (1, 0, 0), (0, 1, 0), (0, 0, 10), (1, 0, 10), (0, 1, 10)],
      faces = [(0, 1, 2), (3, 4, 5), (3, 3, 4)]\<rparr>
   = Inr \<lparr>vertices = [(0, 0, 0), (1, 0, 0), (0, 1, 0), (0, 0, 10), (1, 0, 10), (0, 1, 10)],
          faces = [(0, 1, 2), (3, 4, 5)]\<rparr>"
    by code_simp
  moreover have "back_vertex_indices
       [(0, 0, 0), (1, 0, 0), (0, 1, 0), (0, 0, 10), (1, 0, 10), (0, 1, 10)] = [0, 1, 2]"
    by code_simp
  ultimately show ?thesis by blast
qed

text \<open>
  C6, amended. Before the repair, \<^verbatim>\<open>fill_battery_gap\<close> only appends: the input vertices
  and the input faces are unchanged at the front of its arrays, and the vertices after
  them are infill points. The repair then renumbers; it never moves a vertex, so every
  vertex of the result is an input vertex or an infill point, and every face that is not
  degenerate once the vertices are merged is a face of the result with the same corner
  points.
\<close>

theorem fill_appends_then_repairs:
  assumes "fill_battery_gap_build delaunay m = Inr (Some built)"
    and "faces_in_range built"
  shows "take (length (vertices m)) (vertices built) = vertices m \<and>
         take (length (faces m)) (faces built) = faces m \<and>
         set (drop (length (vertices m)) (vertices built)) \<subseteq> set (unique_points (vertices m)) \<and>
         (\<exists>r. fill_battery_gap delaunay m = Inr r \<and>
              set (vertices r) \<subseteq> set (vertices m) \<union> set (unique_points (vertices m)) \<and>
              (\<forall>f1 \<in> set (faces (merge_vertices built)).
                 \<not> degenerate (vertices (merge_vertices built)) f1 \<longrightarrow>
                 (\<exists>g \<in> set (faces r).
                    face_points (vertices r) g = face_points (vertices (merge_vertices built)) f1)))"
proof -
  from fill_build_cases [OF assms(1)]
  have p: "take (length (vertices m)) (vertices built) = vertices m"
          "take (length (faces m)) (faces built) = faces m"
          "set (drop (length (vertices m)) (vertices built)) \<subseteq> set (unique_points (vertices m))"
          "set (vertices built) \<subseteq> set (vertices m) \<union> set (unique_points (vertices m))"
    by auto
  have f: "fill_battery_gap delaunay m = Inr (repair_steps built)"
    using assms by (simp add: fill_battery_gap_def repair_def)
  have v: "set (vertices (repair_steps built)) \<subseteq> set (vertices m) \<union> set (unique_points (vertices m))"
    using set_vertices_repair_steps [of built] p(4) by blast
  show ?thesis
    using p(1-3) f v repair_keeps_face [OF assms(2)] by blast
qed


theorem fill_appends_then_repairs_witness:
  "fill_battery_gap_build (\<lambda>pts. if 4 \<le> length pts then Some [(0, 1, 3)] else None)
     \<lparr>vertices = [(0, 0, 0), (4, 0, 0), (0, 4, 0), (4, 4, 0)], faces = [(0, 1, 2), (1, 3, 2)]\<rparr>
   = Inr (Some \<lparr>vertices = [(0, 0, 0), (4, 0, 0), (0, 4, 0), (4, 4, 0), (0, 0, 0), (0, 2, 0),
                            (0, 4, 0), (2, 0, 0), (2, 2, 0), (4, 0, 0), (4, 4, 0)],
                faces = [(0, 1, 2), (1, 3, 2), (4, 5, 7)]\<rparr>) \<and>
   faces_in_range \<lparr>vertices = [(0, 0, 0), (4, 0, 0), (0, 4, 0), (4, 4, 0), (0, 0, 0), (0, 2, 0),
                               (0, 4, 0), (2, 0, 0), (2, 2, 0), (4, 0, 0), (4, 4, 0)],
                   faces = [(0, 1, 2), (1, 3, 2), (4, 5, 7)]\<rparr> \<and>
   (\<exists>r. fill_battery_gap (\<lambda>pts. if 4 \<le> length pts then Some [(0, 1, 3)] else None)
          \<lparr>vertices = [(0, 0, 0), (4, 0, 0), (0, 4, 0), (4, 4, 0)],
           faces = [(0, 1, 2), (1, 3, 2)]\<rparr> = Inr r \<and>
        set (vertices r) \<subseteq>
          set (vertices \<lparr>vertices = [(0, 0, 0), (4, 0, 0), (0, 4, 0), (4, 4, 0)],
                         faces = [(0, 1, 2), (1, 3, 2)]\<rparr>) \<union>
          set (unique_points
                (vertices \<lparr>vertices = [(0, 0, 0), (4, 0, 0), (0, 4, 0), (4, 4, 0)],
                           faces = [(0, 1, 2), (1, 3, 2)]\<rparr>)))"
proof -
  let ?m = "\<lparr>vertices = [(0, 0, 0), (4, 0, 0), (0, 4, 0), (4, 4, 0)],
             faces = [(0, 1, 2), (1, 3, 2)]\<rparr>"
  let ?b = "\<lparr>vertices = [(0, 0, 0), (4, 0, 0), (0, 4, 0), (4, 4, 0), (0, 0, 0), (0, 2, 0),
                         (0, 4, 0), (2, 0, 0), (2, 2, 0), (4, 0, 0), (4, 4, 0)],
             faces = [(0, 1, 2), (1, 3, 2), (4, 5, 7)]\<rparr>"
  let ?d = "\<lambda>pts :: (real \<times> real) list.
              if 4 \<le> length pts then Some [(0, 1, 3 :: nat)] else None"
  have h1: "fill_battery_gap_build ?d ?m = Inr (Some ?b)" by code_simp
  have h2: "faces_in_range ?b" by code_simp
  from fill_appends_then_repairs [where delaunay = ?d and m = ?m and built = ?b, OF h1 h2] h1 h2
  show ?thesis by blast
qed

section \<open>Wall topology of the recess\<close>

lemma length_angles: "length angles = 64"
  by (simp add: angles_def num_segments_def)

lemma angles_nth: "i < 64 \<Longrightarrow> angles ! i = real i * (2 * pi / 64)"
  by (simp add: angles_def num_segments_def)

lemma angles_range:
  assumes "i < 64"
  shows "0 \<le> angles ! i \<and> angles ! i < 2 * pi"
proof -
  have "real i < 64" using assms by simp
  then have "real i * (2 * pi / 64) < 64 * (2 * pi / 64)"
    by (intro mult_strict_right_mono) simp_all
  then show ?thesis using assms by (simp add: angles_nth)
qed

lemma length_concat_const:
  "(\<And>x. x \<in> set xs \<Longrightarrow> length (f x) = k) \<Longrightarrow> length (concat (map f xs)) = k * length xs"
  by (induction xs) simp_all

lemma outer_wall_count: "length (concat (map (outer_wall_faces off) [0..<num_segments])) = 128"
  by (subst length_concat_const [where k = 2])
     (simp_all add: outer_wall_faces_def Let_def num_segments_def)

lemma inner_wall_count: "length (concat (map (inner_wall_faces off) [0..<num_segments])) = 128"
  by (subst length_concat_const [where k = 2])
     (simp_all add: inner_wall_faces_def Let_def num_segments_def)

lemma length_wall_faces: "length (wall_faces off) = 256"
  unfolding wall_faces_def
  by (subst length_concat_const [where k = 4])
     (simp_all add: outer_wall_faces_def inner_wall_faces_def Let_def num_segments_def)

lemma inner_reverses_outer:
  "list_all2 (\<lambda>f g. reversed_winding (map_face (\<lambda>j. j + 2 * num_segments) f) g)
     (outer_wall_faces off i) (rev (inner_wall_faces off i))"
  by (simp add: outer_wall_faces_def inner_wall_faces_def Let_def reversed_winding_def
      map_face_def add_ac)

lemma seam_count_concat:
  "seam_count (concat xss) a b = sum_list (map (\<lambda>xs. seam_count xs a b) xss)"
  by (induction xss) (simp_all add: seam_count_def)

lemma sum_list_indicator:
  "sum_list (map (\<lambda>j. if j = k then 1 else 0) [0..<n]) = (if k < n then 1 else (0::nat))"
  by (induction n) auto

lemma sum_list_indicator_Suc:
  "sum_list (map (\<lambda>j. if Suc j = k then 1 else 0) [0..<n]) = (if 0 < k \<and> k \<le> n then 1 else (0::nat))"
  by (induction n) auto

lemma sum_list_next_indicator:
  assumes "i < 64"
  shows "sum_list (map (\<lambda>j. if Suc j mod 64 = i then 1 else 0) [0..<64]) = (1::nat)"
proof -
  have split: "[0..<64] = [0..<63] @ [63]"
    using upt_Suc_append [of 0 63] by (simp del: upt_Suc)
  have "map (\<lambda>j. if Suc j mod 64 = i then 1 else (0::nat)) [0..<63] =
        map (\<lambda>j. if Suc j = i then 1 else 0) [0..<63]"
    by (rule map_cong) simp_all
  then have "sum_list (map (\<lambda>j. if Suc j mod 64 = i then 1 else 0) [0..<63]) =
             (if 0 < i \<and> i \<le> 63 then 1 else (0::nat))"
    by (simp only: sum_list_indicator_Suc)
  then show ?thesis using assms unfolding split by (auto simp del: upt_Suc)
qed

lemma segment_faces:
  "outer_wall_faces off j @ inner_wall_faces off j =
     [(off + 2 * j, off + 2 * j + 1, off + 2 * (Suc j mod 64) + 1),
      (off + 2 * j, off + 2 * (Suc j mod 64) + 1, off + 2 * (Suc j mod 64)),
      (off + 128 + 2 * j, off + 128 + 2 * (Suc j mod 64), off + 128 + 2 * (Suc j mod 64) + 1),
      (off + 128 + 2 * j, off + 128 + 2 * (Suc j mod 64) + 1, off + 128 + 2 * j + 1)]"
  by (simp add: outer_wall_faces_def inner_wall_faces_def Let_def num_segments_def)

lemma face_set_triple: "face_set (a, b, c) = {a, b, c}"
  by (simp add: face_set_def face_indices_def)


lemma seam_count4:
  "seam_count [f1, f2, f3, f4] a b =
     (if a \<in> face_set f1 \<and> b \<in> face_set f1 then 1 else 0) +
     (if a \<in> face_set f2 \<and> b \<in> face_set f2 then 1 else 0) +
     (if a \<in> face_set f3 \<and> b \<in> face_set f3 then 1 else 0) +
     (if a \<in> face_set f4 \<and> b \<in> face_set f4 then 1 else 0)"
  by (simp add: seam_count_def)

lemma outer_seam_segment:
  assumes "i < 64"
  shows "seam_count (outer_wall_faces off j @ inner_wall_faces off j) (off + 2 * i) (off + 2 * i + 1)
       = (if j = i then 1 else 0) + (if Suc j mod 64 = i then 1 else 0)"
proof -
  define n where "n = Suc j mod 64"
  have sf: "outer_wall_faces off j @ inner_wall_faces off j =
     [(off + 2 * j, off + 2 * j + 1, off + 2 * n + 1),
      (off + 2 * j, off + 2 * n + 1, off + 2 * n),
      (off + 128 + 2 * j, off + 128 + 2 * n, off + 128 + 2 * n + 1),
      (off + 128 + 2 * j, off + 128 + 2 * n + 1, off + 128 + 2 * j + 1)]"
    unfolding n_def by (rule segment_faces)
  have m1: "(off + 2 * i \<in> face_set (off + 2 * j, off + 2 * j + 1, off + 2 * n + 1) \<and>
             off + 2 * i + 1 \<in> face_set (off + 2 * j, off + 2 * j + 1, off + 2 * n + 1)) = (j = i)"
    unfolding face_set_triple by (simp only: insert_iff empty_iff) presburger
  have m2: "(off + 2 * i \<in> face_set (off + 2 * j, off + 2 * n + 1, off + 2 * n) \<and>
             off + 2 * i + 1 \<in> face_set (off + 2 * j, off + 2 * n + 1, off + 2 * n)) = (n = i)"
    unfolding face_set_triple by (simp only: insert_iff empty_iff) presburger
  have m3: "(off + 2 * i \<in> face_set (off + 128 + 2 * j, off + 128 + 2 * n, off + 128 + 2 * n + 1)) = False"
    unfolding face_set_triple using assms by (simp only: insert_iff empty_iff) presburger
  have m4: "(off + 2 * i \<in> face_set (off + 128 + 2 * j, off + 128 + 2 * n + 1, off + 128 + 2 * j + 1)) = False"
    unfolding face_set_triple using assms by (simp only: insert_iff empty_iff) presburger
  have "seam_count (outer_wall_faces off j @ inner_wall_faces off j) (off + 2 * i) (off + 2 * i + 1)
       = (if j = i then 1 else 0) + (if n = i then 1 else 0)"
    by (simp only: sf seam_count4 m1 m2 m3 m4 simp_thms if_False add_0_right)
  then show ?thesis unfolding n_def .
qed

lemma inner_seam_segment:
  assumes "j < 64"
  shows "seam_count (outer_wall_faces off j @ inner_wall_faces off j)
           (off + 128 + 2 * i) (off + 128 + 2 * i + 1)
       = (if Suc j mod 64 = i then 1 else 0) + (if j = i then 1 else 0)"
proof -
  define n where "n = Suc j mod 64"
  have n: "n < 64" unfolding n_def by simp
  have sf: "outer_wall_faces off j @ inner_wall_faces off j =
     [(off + 2 * j, off + 2 * j + 1, off + 2 * n + 1),
      (off + 2 * j, off + 2 * n + 1, off + 2 * n),
      (off + 128 + 2 * j, off + 128 + 2 * n, off + 128 + 2 * n + 1),
      (off + 128 + 2 * j, off + 128 + 2 * n + 1, off + 128 + 2 * j + 1)]"
    unfolding n_def by (rule segment_faces)
  have m1: "(off + 128 + 2 * i \<in> face_set (off + 2 * j, off + 2 * j + 1, off + 2 * n + 1)) = False"
    unfolding face_set_triple using assms n by (simp only: insert_iff empty_iff) presburger
  have m2: "(off + 128 + 2 * i \<in> face_set (off + 2 * j, off + 2 * n + 1, off + 2 * n)) = False"
    unfolding face_set_triple using assms n by (simp only: insert_iff empty_iff) presburger
  have m3: "(off + 128 + 2 * i \<in> face_set (off + 128 + 2 * j, off + 128 + 2 * n, off + 128 + 2 * n + 1) \<and>
             off + 128 + 2 * i + 1 \<in> face_set (off + 128 + 2 * j, off + 128 + 2 * n, off + 128 + 2 * n + 1))
            = (n = i)"
    unfolding face_set_triple by (simp only: insert_iff empty_iff) presburger
  have m4: "(off + 128 + 2 * i \<in> face_set (off + 128 + 2 * j, off + 128 + 2 * n + 1, off + 128 + 2 * j + 1) \<and>
             off + 128 + 2 * i + 1 \<in> face_set (off + 128 + 2 * j, off + 128 + 2 * n + 1, off + 128 + 2 * j + 1))
            = (j = i)"
    unfolding face_set_triple by (simp only: insert_iff empty_iff) presburger
  have "seam_count (outer_wall_faces off j @ inner_wall_faces off j)
           (off + 128 + 2 * i) (off + 128 + 2 * i + 1)
       = (if n = i then 1 else 0) + (if j = i then 1 else 0)"
    by (simp only: sf seam_count4 m1 m2 m3 m4 simp_thms if_False add_0_left add_0_right)
  then show ?thesis unfolding n_def .
qed

lemma sum_list_map_add:
  "sum_list (map (\<lambda>x. f x + g x) xs) = sum_list (map f xs) + (sum_list (map g xs) :: nat)"
  by (induction xs) simp_all

lemma outer_seam_shared_by_two:
  assumes "i < 64"
  shows "seam_count (wall_faces off) (off + 2 * i) (off + 2 * i + 1) = 2"
proof -
  have "seam_count (wall_faces off) (off + 2 * i) (off + 2 * i + 1) =
        sum_list (map (\<lambda>j. (if j = i then 1 else 0) + (if Suc j mod 64 = i then 1 else 0)) [0..<64])"
    unfolding wall_faces_def seam_count_concat num_segments_def map_map comp_def
    by (simp only: outer_seam_segment [OF assms])
  also have "\<dots> = 1 + 1"
    unfolding sum_list_map_add using assms
    by (simp only: sum_list_indicator sum_list_next_indicator if_True)
  finally show ?thesis by simp
qed

lemma inner_seam_shared_by_two:
  assumes "i < 64"
  shows "seam_count (wall_faces off) (off + 128 + 2 * i) (off + 128 + 2 * i + 1) = 2"
proof -
  have eq: "map (\<lambda>j. seam_count (outer_wall_faces off j @ inner_wall_faces off j)
           (off + 128 + 2 * i) (off + 128 + 2 * i + 1)) [0..<64] =
        map (\<lambda>j. (if Suc j mod 64 = i then 1 else 0) + (if j = i then 1 else 0)) [0..<64]"
  proof (rule map_cong [OF refl])
    fix j :: nat
    assume "j \<in> set [0..<64]"
    then have "j < 64" by (simp only: set_upt atLeastLessThan_iff)
    then show "seam_count (outer_wall_faces off j @ inner_wall_faces off j)
                 (off + 128 + 2 * i) (off + 128 + 2 * i + 1) =
               (if Suc j mod 64 = i then 1 else 0) + (if j = i then 1 else 0)"
      by (rule inner_seam_segment)
  qed
  have "seam_count (wall_faces off) (off + 128 + 2 * i) (off + 128 + 2 * i + 1) =
        sum_list (map (\<lambda>j. (if Suc j mod 64 = i then 1 else 0) + (if j = i then 1 else 0)) [0..<64])"
    unfolding wall_faces_def seam_count_concat num_segments_def map_map comp_def
    by (simp only: eq)
  also have "\<dots> = 1 + 1"
    unfolding sum_list_map_add using assms
    by (simp only: sum_list_indicator sum_list_next_indicator if_True)
  finally show ?thesis by simp
qed




section \<open>Displacement and walls of the recess\<close>

lemma amin_in: "xs \<noteq> [] \<Longrightarrow> amin xs \<in> set xs"
  by (induction xs rule: amin.induct) (auto simp: min_def)

lemma amin_le: "x \<in> set xs \<Longrightarrow> amin xs \<le> x"
  by (induction xs rule: amin.induct) (auto simp: min_def)

lemma recess_center_total:
  assumes "position \<noteq> None \<or> (\<exists>i < length (vertices m). referenced (faces m) i)"
  shows "\<exists>c. recess_center m position = Inr c"
proof (cases position)
  case None
  with assms obtain i where "i < length (vertices m)" "referenced (faces m) i" by auto
  then have "filter (referenced (faces m)) [0..<length (vertices m)] \<noteq> []"
    by (auto simp: filter_empty_conv)
  with None show ?thesis
    by (simp only: recess_center_def mesh_bounds_def Let_def option.case map_is_Nil_conv
        if_False prod.case sum.inject simp_thms)
next
  case (Some c)
  then show ?thesis by (simp add: recess_center_def)
qed

lemma length_wall_vertices: "length (wall_vertices cx cy r z_min depth) = 128"
  unfolding wall_vertices_def
  by (subst length_concat_const [where k = 2]) (simp_all add: Let_def length_angles)

lemma wall_faces_nonempty: "wall_faces off \<noteq> []"
  using length_wall_faces [of off] by auto

lemma wall_vertices_nonempty: "wall_vertices cx cy r z_min depth \<noteq> []"
  using length_wall_vertices [of cx cy r z_min depth] by auto

lemma length_displace_ring [simp]:
  "length (displace_ring cx cy inner outer depth z_min vs) = length vs"
  by (simp add: displace_ring_def)

lemma build_eq:
  assumes "vertices m \<noteq> []" and "recess_center m position = Inr (cx, cy)"
  shows "add_magsafe_recess_build m outer inner depth position =
     Inr \<lparr>vertices = displace_ring cx cy inner outer depth (amin (map vz (vertices m))) (vertices m)
                     @ wall_vertices cx cy outer (amin (map vz (vertices m))) depth
                     @ wall_vertices cx cy inner (amin (map vz (vertices m))) depth,
          faces = faces m @ wall_faces (length (vertices m))\<rparr>"
  using assms
  by (simp add: add_magsafe_recess_build_def Let_def wall_faces_nonempty wall_vertices_nonempty)

lemma displace_ring_nth:
  "i < length vs \<Longrightarrow>
   displace_ring cx cy inner outer depth z_min vs ! i =
     (if ring_area_mask cx cy inner outer z_min (vs ! i)
      then (vx (vs ! i), vy (vs ! i), vz (vs ! i) + depth) else vs ! i)"
  by (simp add: displace_ring_def)

lemma recess_result_vertices:
  assumes "add_magsafe_recess_build m outer inner depth position = Inr built"
    and "add_magsafe_recess m outer inner depth position = Inr r"
  shows "set (vertices r) \<subseteq> set (vertices built)"
proof -
  from assms have "r = fix_normals (repair_steps built)"
    by (auto simp: add_magsafe_recess_def repair_def split: if_splits)
  then show ?thesis using set_vertices_repair_steps [of built] by simp
qed

lemma wall_face_bound:
  assumes "f \<in> set (wall_faces off)" and "i \<in> face_set f"
  shows "i < off + 256"
proof -
  from assms(1) obtain j where j: "j < 64"
    and f: "f \<in> set (outer_wall_faces off j @ inner_wall_faces off j)"
    by (auto simp: wall_faces_def num_segments_def)
  have n: "Suc j mod 64 < 64" by simp
  from f assms(2) j n show ?thesis
    unfolding segment_faces
    by (auto simp: face_set_triple)
qed

lemma recess_built_in_range:
  assumes "faces_in_range m"
  shows "faces_in_range
     \<lparr>vertices = displace_ring cx cy inner outer depth z_min (vertices m)
                  @ wall_vertices cx cy outer z_min depth @ wall_vertices cx cy inner z_min depth,
      faces = faces m @ wall_faces (length (vertices m))\<rparr>"
  using assms wall_face_bound [of _ "length (vertices m)"]
  by (fastforce simp: faces_in_range_iff length_wall_vertices)


lemma distance_on_x_axis: "0 \<le> x \<Longrightarrow> distance_from_center 0 0 (x, 0, z) = x"
  by (simp add: distance_from_center_def vx_def vy_def)


lemma displace_ring_id:
  "filter (ring_area_mask cx cy inner outer z_min) vs = [] \<Longrightarrow>
   displace_ring cx cy inner outer depth z_min vs = vs"
  by (induction vs) (auto simp: displace_ring_def split: if_splits)

lemma back_surface_nonempty:
  assumes "vs \<noteq> []"
  shows "filter (back_surface_mask (amin (map vz vs))) vs \<noteq> []"
proof -
  from assms have "amin (map vz vs) \<in> set (map vz vs)" by (intro amin_in) simp
  then obtain v where v: "v \<in> set vs" "vz v = amin (map vz vs)" by auto
  then have "back_surface_mask (amin (map vz vs)) v" by (simp add: back_surface_mask_def)
  with v(1) show ?thesis by (auto simp: filter_empty_conv)
qed




section \<open>Faces stay in range\<close>

lemma in_range_result_repair:
  "faces_in_range m \<Longrightarrow> in_range_result (repair m)"
  by (simp add: in_range_result_def repair_def faces_in_range_repair_steps)

lemma faces_in_range_append:
  assumes "faces_in_range m"
    and "\<And>f i. f \<in> set fs \<Longrightarrow> i \<in> face_set f \<Longrightarrow> i < length (vertices m) + length vs"
  shows "faces_in_range \<lparr>vertices = vertices m @ vs, faces = faces m @ fs\<rparr>"
  using assms by (fastforce simp: faces_in_range_iff)

lemma fill_build_in_range:
  assumes "faces_in_range m"
    and d: "\<And>pts ts. delaunay pts = Some ts \<Longrightarrow> list_all (face_in_range (length pts)) ts"
    and b: "fill_battery_gap_build delaunay m = Inr (Some built)"
  shows "faces_in_range built"
proof (cases "built = m")
  case True
  with assms(1) show ?thesis by simp
next
  case False
  with b obtain ts where ts: "delaunay (map (\<lambda>p. (vx p, vy p)) (unique_points (vertices m))) = Some ts"
    and built: "built = \<lparr>vertices = vertices m @ unique_points (vertices m),
                        faces = faces m @ map (map_face (\<lambda>i. i + length (vertices m))) ts\<rparr>"
    by (auto simp: fill_battery_gap_build_def Let_def split: if_splits option.splits)
  from d [OF ts] have r: "\<forall>t \<in> set ts. \<forall>i \<in> face_set t. i < length (unique_points (vertices m))"
    by (simp add: list_all_iff face_in_range_iff)
  show ?thesis
    unfolding built
    by (rule faces_in_range_append [OF assms(1)]) (use r in \<open>auto simp: face_set_map_face\<close>)
qed

lemma fill_in_range:
  assumes "faces_in_range m"
    and d: "\<And>pts ts. delaunay pts = Some ts \<Longrightarrow> list_all (face_in_range (length pts)) ts"
  shows "in_range_result (fill_battery_gap delaunay m)"
proof (cases "fill_battery_gap_build delaunay m")
  case (Inl e)
  then have "e \<noteq> IndexError"
    by (auto simp: fill_battery_gap_build_def Let_def split: if_splits option.splits)
  with Inl show ?thesis by (simp add: fill_battery_gap_def in_range_result_def)
next
  case (Inr res)
  show ?thesis
  proof (cases res)
    case None
    with Inr assms(1) show ?thesis by (simp add: fill_battery_gap_def in_range_result_def)
  next
    case (Some built)
    with Inr have "faces_in_range built" using fill_build_in_range [OF assms] by simp
    then have "in_range_result (repair built)" by (rule in_range_result_repair)
    with Inr Some show ?thesis by (simp add: fill_battery_gap_def)
  qed
qed

lemma recess_in_range:
  assumes "faces_in_range m"
  shows "in_range_result (add_magsafe_recess m outer_radius inner_radius depth position)"
proof (cases "add_magsafe_recess_build m outer_radius inner_radius depth position")
  case (Inl e)
  then have "e \<noteq> IndexError"
    by (auto simp: add_magsafe_recess_build_def recess_center_def Let_def
        split: if_splits option.splits sum.splits prod.splits)
  with Inl show ?thesis by (simp add: add_magsafe_recess_def in_range_result_def)
next
  case (Inr built)
  then have v: "vertices m \<noteq> []"
    by (auto simp: add_magsafe_recess_build_def Let_def split: sum.splits prod.splits if_splits)
  from Inr obtain cx cy where c: "recess_center m position = Inr (cx, cy)"
    by (auto simp: add_magsafe_recess_build_def split: sum.splits)
  let ?z = "amin (map vz (vertices m))"
  let ?m' = "m\<lparr>vertices := displace_ring cx cy inner_radius outer_radius depth ?z (vertices m)\<rparr>"
  have m': "faces_in_range ?m'" using assms by (simp add: faces_in_range_iff)
  have "built = \<lparr>vertices = vertices ?m' @ (wall_vertices cx cy outer_radius ?z depth
                                   @ wall_vertices cx cy inner_radius ?z depth),
                  faces = faces ?m' @ wall_faces (length (vertices m))\<rparr>"
    using Inr build_eq [OF v c, of outer_radius inner_radius depth] by simp
  moreover have "faces_in_range \<lparr>vertices = vertices ?m' @ (wall_vertices cx cy outer_radius ?z depth
                                   @ wall_vertices cx cy inner_radius ?z depth),
                  faces = faces ?m' @ wall_faces (length (vertices m))\<rparr>"
    by (rule faces_in_range_append [OF m'])
       (use wall_face_bound in \<open>auto simp: length_wall_vertices\<close>)
  ultimately have b: "faces_in_range built" by simp
  show ?thesis
  proof (cases "repair built")
    case (Inl e)
    with b show ?thesis by (simp add: repair_def)
  next
    case r: (Inr repaired)
    with b have "faces_in_range repaired" by (auto simp: repair_def faces_in_range_repair_steps)
    then have "faces_in_range (fix_normals repaired)" by (rule faces_in_range_fix_normals)
    with Inr r show ?thesis by (simp add: add_magsafe_recess_def in_range_result_def)
  qed
qed

lemma apply_in_range:
  assumes "faces_in_range m"
    and d: "\<And>pts ts. delaunay pts = Some ts \<Longrightarrow> list_all (face_in_range (length pts)) ts"
  shows "in_range_result (apply_modifications delaunay m remove_battery_gap add_magsafe position)"
proof -
  let ?x1 = "if remove_battery_gap then fill_battery_gap delaunay m else Inr m"
  have x1: "in_range_result ?x1"
    using fill_in_range [OF assms] assms(1) by (simp add: in_range_result_def)
  show ?thesis
  proof (cases ?x1)
    case (Inl e)
    with x1 show ?thesis by (simp add: apply_modifications_def in_range_result_def)
  next
    case m1: (Inr m1)
    with x1 have r1: "faces_in_range m1" by (simp add: in_range_result_def)
    let ?x2 = "if add_magsafe then add_magsafe_recess m1 28 22.5 2.5 position else Inr m1"
    have x2: "in_range_result ?x2"
      using recess_in_range [OF r1] r1 by (simp add: in_range_result_def)
    show ?thesis
    proof (cases ?x2)
      case (Inl e)
      with x2 m1 show ?thesis by (simp add: apply_modifications_def in_range_result_def)
    next
      case m2: (Inr m2)
      with x2 have "faces_in_range m2" by (simp add: in_range_result_def)
      then have "faces_in_range (fix_normals m2)" by (rule faces_in_range_fix_normals)
      with m1 m2 show ?thesis
        by (simp add: apply_modifications_def in_range_result_def Let_def)
    qed
  qed
qed

text \<open>
  C10. When the faces of the input are in range, and the triangulation answers with
  triangles over the points it was given, each of \<^verbatim>\<open>fill_battery_gap\<close>,
  \<^verbatim>\<open>add_magsafe_recess\<close> and \<^verbatim>\<open>apply_modifications\<close> returns a mesh whose faces are all
  in range of its own vertex array, and none of them ever raises the error of an index
  out of range: the offsets of the appended grid and wall faces are right.
\<close>

theorem operations_keep_faces_in_range:
  assumes "faces_in_range m"
    and "\<And>pts ts. delaunay pts = Some ts \<Longrightarrow> list_all (face_in_range (length pts)) ts"
  shows "in_range_result (fill_battery_gap delaunay m) \<and>
         in_range_result (add_magsafe_recess m outer_radius inner_radius depth position) \<and>
         in_range_result (apply_modifications delaunay m remove_battery_gap add_magsafe position)"
  using fill_in_range [OF assms] recess_in_range [OF assms(1)] apply_in_range [OF assms]
  by simp

theorem operations_keep_faces_in_range_witness:
  "faces_in_range \<lparr>vertices = [(0, 0, 0), (4, 0, 0), (0, 4, 0), (4, 4, 0)],
                   faces = [(0, 1, 2), (1, 3, 2)]\<rparr> \<and>
   fill_battery_gap (\<lambda>pts. if 4 \<le> length pts then Some [(0, 1, 3)] else None)
     \<lparr>vertices = [(0, 0, 0), (4, 0, 0), (0, 4, 0), (4, 4, 0)], faces = [(0, 1, 2), (1, 3, 2)]\<rparr>
     = Inr \<lparr>vertices = [(0, 0, 0), (4, 0, 0), (0, 4, 0), (4, 4, 0), (0, 2, 0), (2, 0, 0)],
            faces = [(0, 1, 2), (1, 3, 2), (0, 4, 5)]\<rparr> \<and>
   in_range_result (fill_battery_gap (\<lambda>pts. if 4 \<le> length pts then Some [(0, 1, 3)] else None)
     \<lparr>vertices = [(0, 0, 0), (4, 0, 0), (0, 4, 0), (4, 4, 0)], faces = [(0, 1, 2), (1, 3, 2)]\<rparr>) \<and>
   in_range_result (add_magsafe_recess
     \<lparr>vertices = [(0, 0, 0), (4, 0, 0), (0, 4, 0), (4, 4, 0)], faces = [(0, 1, 2), (1, 3, 2)]\<rparr>
     28 22.5 2.5 None) \<and>
   in_range_result (apply_modifications
     (\<lambda>pts. if 4 \<le> length pts then Some [(0, 1, 3)] else None)
     \<lparr>vertices = [(0, 0, 0), (4, 0, 0), (0, 4, 0), (4, 4, 0)], faces = [(0, 1, 2), (1, 3, 2)]\<rparr>
     True True None)"
proof -
  let ?m = "\<lparr>vertices = [(0, 0, 0), (4, 0, 0), (0, 4, 0), (4, 4, 0)],
             faces = [(0, 1, 2), (1, 3, 2)]\<rparr>"
  let ?d = "\<lambda>pts :: (real \<times> real) list. if 4 \<le> length pts then Some [(0, 1, 3 :: nat)] else None"
  have h1: "faces_in_range ?m" by code_simp
  have h2: "\<And>pts ts. ?d pts = Some ts \<Longrightarrow> list_all (face_in_range (length pts)) ts"
    by (auto simp: face_in_range_def face_indices_def split: if_splits)
  have e: "fill_battery_gap ?d ?m
     = Inr \<lparr>vertices = [(0, 0, 0), (4, 0, 0), (0, 4, 0), (4, 4, 0), (0, 2, 0), (2, 0, 0)],
            faces = [(0, 1, 2), (1, 3, 2), (0, 4, 5)]\<rparr>"
    by code_simp
  from operations_keep_faces_in_range [where delaunay = ?d and m = ?m and outer_radius = 28
      and inner_radius = "22.5" and depth = "2.5" and position = None
      and remove_battery_gap = True and add_magsafe = True, OF h1 h2] h1 e
  show ?thesis by blast
qed

end
